theory Spec2Isabelle
  imports Main "HOL-Library.Sublist" "HOL-Library.Finite_Map"
begin

section \<open>Values of the scraper\<close>

text \<open>
  The repository holds two programs of the same package: \<^verbatim>\<open>src/main.go\<close>, where the
  whole run is the body of \<^verbatim>\<open>main\<close>, and \<^verbatim>\<open>src/unnamed/part_000\<close>, where the
  run is split into \<^verbatim>\<open>scrapeChannel\<close>, \<^verbatim>\<open>collectPosts\<close>, \<^verbatim>\<open>processPost\<close> and
  \<^verbatim>\<open>writePostToFile\<close>. Names of the first program carry the prefix \<open>main_go\<close> where the
  two clash.

  A Go \<^verbatim>\<open>string\<close> is a sequence of bytes: \<^typ>\<open>string\<close>. An \<^verbatim>\<open>error\<close> is either
  one reported by a collaborator (the browser driver, the operating system, the JSON library) or
  one wrapped by \<^verbatim>\<open>fmt.Errorf("...: %w", err)\<close>.
\<close>

datatype error = ExtError string | Errorf string error

record Post =
  Text :: string

text \<open>\<^verbatim>\<open>json.Marshal(post)\<close> is a call into the standard library; the run takes it as a
  parameter, so that its error branch stays a branch of the model.\<close>

type_synonym marshal = "Post \<Rightarrow> error + string"

subsection \<open>\<^verbatim>\<open>strings.TrimPrefix\<close>, \<^verbatim>\<open>strings.Split\<close>, \<^verbatim>\<open>strings.SplitN\<close>\<close>

definition strings_TrimPrefix :: "string \<Rightarrow> string \<Rightarrow> string" where
  "strings_TrimPrefix s p = (if prefix p s then drop (length p) s else s)"

text \<open>Both call sites split at the one-byte separator \<^verbatim>\<open>"/"\<close>, so the separator is a
  \<^typ>\<open>char\<close>. \<open>genSplit s sep k\<close> is the loop of the library's \<^verbatim>\<open>genSplit\<close> with \<open>k\<close>
  cuts left: it cuts at the first separator and goes on with the rest.\<close>

fun genSplit :: "string \<Rightarrow> char \<Rightarrow> nat \<Rightarrow> string list" where
  "genSplit s sep 0 = [s]"
| "genSplit s sep (Suc k) =
     (if sep \<in> set s
      then takeWhile (\<lambda>c. c \<noteq> sep) s # genSplit (tl (dropWhile (\<lambda>c. c \<noteq> sep) s)) sep k
      else [s])"

definition strings_Count :: "string \<Rightarrow> char \<Rightarrow> nat" where
  "strings_Count s sep = length (filter (\<lambda>c. c = sep) s)"

text \<open>\<^verbatim>\<open>Split(s, sep)\<close> is \<^verbatim>\<open>genSplit(s, sep, 0, -1)\<close>: \<open>n = Count(s, sep) + 1\<close> pieces.\<close>

definition strings_Split :: "string \<Rightarrow> char \<Rightarrow> string list" where
  "strings_Split s sep = genSplit s sep (strings_Count s sep)"

text \<open>\<^verbatim>\<open>SplitN(s, sep, n)\<close> for \<open>n \<ge> 0\<close>: no piece for \<open>n = 0\<close>, otherwise at most
  \<open>min n (len(s) + 1)\<close> pieces, the last one the unsplit remainder.\<close>

definition strings_SplitN :: "string \<Rightarrow> char \<Rightarrow> nat \<Rightarrow> string list" where
  "strings_SplitN s sep n = (if n = 0 then [] else genSplit s sep (min n (length s + 1) - 1))"

subsection \<open>\<^verbatim>\<open>extractChannelName\<close>, twice\<close>

text \<open>\<^verbatim>\<open>src/main.go\<close>, lines 139 to 145: the piece after the last slash.\<close>

definition main_go_extractChannelName :: "string \<Rightarrow> string" where
  "main_go_extractChannelName channelString =
     (let channelName = strings_TrimPrefix channelString ''@'';
          channelName = strings_TrimPrefix channelName ''https://t.me/'';
          parts = strings_Split channelName CHR ''/''
      in parts ! (length parts - 1))"

text \<open>\<^verbatim>\<open>src/unnamed/part_000\<close>, lines 84 to 92: at most two pieces, the second one if there
  is one.\<close>

definition extractChannelName :: "string \<Rightarrow> string" where
  "extractChannelName channelString =
     (let channelString = strings_TrimPrefix channelString ''@'';
          channelString = strings_TrimPrefix channelString ''https://t.me/'';
          parts = strings_SplitN channelString CHR ''/'' 2
      in if length parts > 1 then parts ! 1 else parts ! 0)"

text \<open>What both functions split: the input without the two prefixes.\<close>

definition trimmed :: "string \<Rightarrow> string" where
  "trimmed s = strings_TrimPrefix (strings_TrimPrefix s ''@'') ''https://t.me/''"

subsection \<open>The Item Store: \<^verbatim>\<open>map[string]bool\<close>\<close>

type_synonym postSet = "(string, bool) fmap"

text \<open>\<^verbatim>\<open>postSet[content]\<close>: the zero value \<^verbatim>\<open>false\<close> for a key that is not in the map.\<close>

definition index :: "postSet \<Rightarrow> string \<Rightarrow> bool" where
  "index m k = (case fmlookup m k of None \<Rightarrow> False | Some b \<Rightarrow> b)"

text \<open>\<^verbatim>\<open>len(postSet)\<close>: the number of keys.\<close>

definition len :: "postSet \<Rightarrow> nat" where
  "len m = fcard (fmdom m)"

subsection \<open>The output file\<close>

text \<open>
  The file is opened with \<^verbatim>\<open>O_APPEND\<close>: every write goes to the end of its content.
  Whether a write succeeds is decided by the operating system, so the handle carries the script
  of what the next writes will do. \<open>WriteErr n msg\<close> is a write that fails: it is a short
  write, so at most \<open>n\<close> and fewer than \<^verbatim>\<open>len(b)\<close> bytes of the data have reached the file
  (\<^verbatim>\<open>Write\<close> returns the count and a non-nil error; the code drops the count). An empty
  script means that every further write succeeds.
\<close>

datatype write_result = WriteOK | WriteErr nat string

record os_File =
  contents :: string
  faults :: "write_result list"

definition file_Write :: "string \<Rightarrow> os_File \<Rightarrow> error option \<times> os_File" where
  "file_Write b f =
     (case faults f of
        [] \<Rightarrow> (None, f\<lparr>contents := contents f @ b\<rparr>)
      | WriteOK # r \<Rightarrow> (None, f\<lparr>contents := contents f @ b, faults := r\<rparr>)
      | WriteErr n msg # r \<Rightarrow>
          (Some (ExtError msg),
           f\<lparr>contents := contents f @ take (min n (length b - 1)) b, faults := r\<rparr>))"

definition newline :: char where
  "newline = CHR 0x0A"

definition file_WriteString :: "string \<Rightarrow> os_File \<Rightarrow> error option \<times> os_File" where
  "file_WriteString s f = file_Write s f"

subsection \<open>The state of a run\<close>

text \<open>
  Time is the monotonic clock in nanoseconds (\<^verbatim>\<open>time.Now().Before(endTime)\<close> compares
  monotonic readings). The log is the sequence of lines given to \<^verbatim>\<open>log.Println\<close> and
  \<^verbatim>\<open>log.Printf\<close>: a plain message, an error with the message in front of it (empty where
  the error is printed alone), the line \<^verbatim>\<open>Collected unique post:\<close> of
  \<^verbatim>\<open>processPost\<close>, and the progress line with the count and the time left.
\<close>

datatype log_line =
    Println string
  | PrintlnErr string error
  | Collected string
  | Progress nat int

record state =
  now :: nat
  postSet :: postSet
  outfile :: os_File
  logs :: "log_line list"

text \<open>
  What the collaborators decide in one cycle: the result of the
  \<^verbatim>\<open>chromedp.Run(ScrollIntoView, Sleep, Evaluate)\<close> call, the time from the check of the
  loop condition to the evaluation of \<^verbatim>\<open>time.Until(endTime)\<close>, and the time from there
  to the next check of the loop condition.
\<close>

record cycle =
  capture :: "error + string list"
  busy :: nat
  idle :: nat

definition log_add :: "log_line \<Rightarrow> state \<Rightarrow> state" where
  "log_add l s = s\<lparr>logs := logs s @ [l]\<rparr>"

text \<open>Lines 107 to 109 of \<^verbatim>\<open>src/main.go\<close> and 141 to 143 of \<^verbatim>\<open>part_000\<close>: the clock
  is read \<open>d\<close> after the check of the loop condition, and the count is \<^verbatim>\<open>len(postSet)\<close>.\<close>

definition report :: "nat \<Rightarrow> nat \<Rightarrow> state \<Rightarrow> state" where
  "report endTime d s =
     (let s = s\<lparr>now := now s + d\<rparr>
      in log_add (Progress (len (postSet s)) (int endTime - int (now s))) s)"

section \<open>\<^verbatim>\<open>src/unnamed/part_000\<close>\<close>

definition writePostToFile :: "marshal \<Rightarrow> Post \<Rightarrow> os_File \<Rightarrow> error option \<times> os_File" where
  "writePostToFile M post f =
     (case M post of
        Inl err \<Rightarrow> (Some (Errorf ''error marshalling post'' err), f)
      | Inr postData \<Rightarrow>
          (case file_Write postData f of
             (Some err, f) \<Rightarrow> (Some (Errorf ''error writing post to file'' err), f)
           | (None, f) \<Rightarrow>
               (case file_WriteString [newline] f of
                  (Some err, f) \<Rightarrow> (Some (Errorf ''error writing newline to file'' err), f)
                | (None, f) \<Rightarrow> (None, f))))"

definition processPost :: "marshal \<Rightarrow> string \<Rightarrow> state \<Rightarrow> error option \<times> state" where
  "processPost M content s =
     (if \<not> index (postSet s) content then
        let s = s\<lparr>postSet := fmupd content True (postSet s)\<rparr>;
            post = \<lparr>Text = content\<rparr>
        in (case writePostToFile M post (outfile s) of
              (Some err, f) \<Rightarrow> (Some err, s\<lparr>outfile := f\<rparr>)
            | (None, f) \<Rightarrow> (None, log_add (Collected content) (s\<lparr>outfile := f\<rparr>)))
      else (None, s))"

text \<open>The \<^verbatim>\<open>for _, content := range contentList\<close> of \<^verbatim>\<open>collectPosts\<close>.\<close>

fun range_processPost :: "marshal \<Rightarrow> string list \<Rightarrow> state \<Rightarrow> state" where
  "range_processPost M [] s = s"
| "range_processPost M (content # rest) s =
     (case processPost M content s of
        (Some err, s) \<Rightarrow> range_processPost M rest (log_add (PrintlnErr [] err) s)
      | (None, s) \<Rightarrow> range_processPost M rest s)"

definition collectPosts :: "marshal \<Rightarrow> cycle \<Rightarrow> state \<Rightarrow> error option \<times> state" where
  "collectPosts M c s =
     (case capture c of
        Inl err \<Rightarrow> (Some (Errorf ''error scraping posts'' err), s)
      | Inr contentList \<Rightarrow> (None, range_processPost M contentList s))"

text \<open>One turn of the loop of \<^verbatim>\<open>scrapeChannel\<close>, lines 137 to 143, up to the next check of
  the loop condition.\<close>

definition scrape_cycle :: "marshal \<Rightarrow> nat \<Rightarrow> cycle \<Rightarrow> state \<Rightarrow> state" where
  "scrape_cycle M endTime c s =
     (let s = (case collectPosts M c s of
                 (Some err, s) \<Rightarrow> log_add (PrintlnErr [] err) s
               | (None, s) \<Rightarrow> s);
          s = report endTime (busy c) s
      in s\<lparr>now := now s + idle c\<rparr>)"

text \<open>
  The loop \<^verbatim>\<open>for time.Now().Before(endTime)\<close>. It runs for as long as the clock says, so
  the model runs it over the script of the cycles the collaborators will deliver: \<open>None\<close> means
  that the script ended while the deadline had not passed, that is, that the run is still going.
\<close>

fun scrape_loop :: "marshal \<Rightarrow> nat \<Rightarrow> cycle list \<Rightarrow> state \<Rightarrow> state option" where
  "scrape_loop M endTime [] s = (if now s < endTime then None else Some s)"
| "scrape_loop M endTime (c # cs) s =
     (if now s < endTime then scrape_loop M endTime cs (scrape_cycle M endTime c s)
      else Some s)"

section \<open>\<^verbatim>\<open>src/main.go\<close>\<close>

text \<open>The body of \<^verbatim>\<open>for _, content := range contentList\<close>, lines 85 to 104.\<close>

definition main_go_item :: "marshal \<Rightarrow> string \<Rightarrow> state \<Rightarrow> state" where
  "main_go_item M content s =
     (if \<not> index (postSet s) content then
        let s = s\<lparr>postSet := fmupd content True (postSet s)\<rparr>;
            post = \<lparr>Text = content\<rparr>
        in (case M post of
              Inl err \<Rightarrow> log_add (PrintlnErr ''Error marshalling post:'' err) s
            | Inr postData \<Rightarrow>
                (case file_Write postData (outfile s) of
                   (Some err, f) \<Rightarrow>
                     log_add (PrintlnErr ''Error writing post to file:'' err) (s\<lparr>outfile := f\<rparr>)
                 | (None, f) \<Rightarrow>
                     (case file_WriteString [newline] f of
                        (Some err, f) \<Rightarrow>
                          log_add (PrintlnErr ''Error writing newline to file:'' err)
                            (s\<lparr>outfile := f\<rparr>)
                      | (None, f) \<Rightarrow> s\<lparr>outfile := f\<rparr>)))
      else s)"

fun main_go_range :: "marshal \<Rightarrow> string list \<Rightarrow> state \<Rightarrow> state" where
  "main_go_range M [] s = s"
| "main_go_range M (content # rest) s = main_go_range M rest (main_go_item M content s)"

text \<open>\<^verbatim>\<open>log.Fatal\<close> prints and ends the process with status 1: \<open>Fatal\<close> carries the
  error and what is left behind. \<open>Returned\<close> is the normal end.\<close>

datatype 'a exit = Fatal error 'a | Returned 'a

text \<open>One turn of the loop of \<^verbatim>\<open>main\<close>, lines 73 to 109.\<close>

definition main_go_cycle :: "marshal \<Rightarrow> nat \<Rightarrow> cycle \<Rightarrow> state \<Rightarrow> error + state" where
  "main_go_cycle M endTime c s =
     (case capture c of
        Inl err \<Rightarrow> Inl err
      | Inr contentList \<Rightarrow>
          (let s = main_go_range M contentList s;
               s = report endTime (busy c) s
           in Inr (s\<lparr>now := now s + idle c\<rparr>)))"

fun main_go_loop :: "marshal \<Rightarrow> nat \<Rightarrow> cycle list \<Rightarrow> state \<Rightarrow> state exit option" where
  "main_go_loop M endTime [] s = (if now s < endTime then None else Some (Returned s))"
| "main_go_loop M endTime (c # cs) s =
     (if now s < endTime then
        (case main_go_cycle M endTime c s of
           Inl err \<Rightarrow> Some (Fatal err (log_add (PrintlnErr [] err) (s\<lparr>now := now s + busy c\<rparr>)))
         | Inr s \<Rightarrow> main_go_loop M endTime cs s)
      else Some (Returned s))"

section \<open>The format of the output file\<close>

subsection \<open>\<^verbatim>\<open>json.Marshal\<close> of a \<^verbatim>\<open>Post\<close>\<close>

text \<open>
  What the standard library's \<^verbatim>\<open>encoding/json\<close> (Go 1.22 and later) writes for a struct
  with the one string field tagged \<^verbatim>\<open>json:"text"\<close>: the string between double quotes,
  with HTML escaping on. A byte below \<^verbatim>\<open>0x80\<close> is copied when it is in
  \<^verbatim>\<open>htmlSafeSet\<close> and escaped otherwise; from \<^verbatim>\<open>0x80\<close> on, the bytes are decoded
  as UTF-8: an ill-formed byte becomes the escape of U+FFFD, U+2028 and U+2029 are escaped, every
  other rune is copied.
\<close>

definition dquote :: char where
  "dquote = CHR 0x22"

definition bslash :: char where
  "bslash = CHR 0x5C"

definition hex :: "nat \<Rightarrow> char" where
  "hex n = ''0123456789abcdef'' ! n"

definition htmlSafe :: "char \<Rightarrow> bool" where
  "htmlSafe b = (0x20 \<le> (of_char b :: nat) \<and> (of_char b :: nat) < 0x80
     \<and> b \<noteq> dquote \<and> b \<noteq> bslash \<and> b \<noteq> CHR ''&'' \<and> b \<noteq> CHR ''<'' \<and> b \<noteq> CHR ''>'')"

definition escape :: "char \<Rightarrow> string" where
  "escape b =
     (if b = bslash \<or> b = dquote then [bslash, b]
      else if b = CHR 0x08 then [bslash, CHR ''b'']
      else if b = CHR 0x0C then [bslash, CHR ''f'']
      else if b = CHR 0x0A then [bslash, CHR ''n'']
      else if b = CHR 0x0D then [bslash, CHR ''r'']
      else if b = CHR 0x09 then [bslash, CHR ''t'']
      else [bslash, CHR ''u'', CHR ''0'', CHR ''0'',
            hex (of_char b div 16), hex (of_char b mod 16)])"

definition RuneError :: nat where
  "RuneError = 0xFFFD"

text \<open>The range \<^verbatim>\<open>acceptRanges\<close> allows for the second byte after the first byte \<open>s0\<close>.\<close>

definition accept_lo :: "nat \<Rightarrow> nat" where
  "accept_lo s0 = (if s0 = 0xE0 then 0xA0 else if s0 = 0xF0 then 0x90 else 0x80)"

definition accept_hi :: "nat \<Rightarrow> nat" where
  "accept_hi s0 = (if s0 = 0xED then 0x9F else if s0 = 0xF4 then 0x8F else 0xBF)"

definition cont :: "char \<Rightarrow> bool" where
  "cont c = (0x80 \<le> (of_char c :: nat) \<and> (of_char c :: nat) \<le> 0xBF)"

text \<open>\<^verbatim>\<open>utf8.DecodeRuneInString\<close>: the first rune and its width in bytes;
  \<open>(RuneError, 1)\<close> for an ill-formed encoding, \<open>(RuneError, 0)\<close> for the empty string.\<close>

fun utf8_DecodeRune :: "string \<Rightarrow> nat \<times> nat" where
  "utf8_DecodeRune [] = (RuneError, 0)"
| "utf8_DecodeRune (c0 # r) =
     (let s0 = of_char c0 :: nat in
      if s0 < 0x80 then (s0, 1)
      else if 0xC2 \<le> s0 \<and> s0 \<le> 0xDF then
        (case r of
           c1 # _ \<Rightarrow>
             if cont c1 then ((s0 mod 32) * 64 + of_char c1 mod 64, 2) else (RuneError, 1)
         | _ \<Rightarrow> (RuneError, 1))
      else if 0xE0 \<le> s0 \<and> s0 \<le> 0xEF then
        (case r of
           c1 # c2 # _ \<Rightarrow>
             if accept_lo s0 \<le> of_char c1 \<and> of_char c1 \<le> accept_hi s0 \<and> cont c2
             then ((s0 mod 16) * 4096 + (of_char c1 mod 64) * 64 + of_char c2 mod 64, 3)
             else (RuneError, 1)
         | _ \<Rightarrow> (RuneError, 1))
      else if 0xF0 \<le> s0 \<and> s0 \<le> 0xF4 then
        (case r of
           c1 # c2 # c3 # _ \<Rightarrow>
             if accept_lo s0 \<le> of_char c1 \<and> of_char c1 \<le> accept_hi s0 \<and> cont c2 \<and> cont c3
             then ((s0 mod 8) * 262144 + (of_char c1 mod 64) * 4096
                     + (of_char c2 mod 64) * 64 + of_char c3 mod 64, 4)
             else (RuneError, 1)
         | _ \<Rightarrow> (RuneError, 1))
      else (RuneError, 1))"

text \<open>The loop of \<^verbatim>\<open>appendString\<close>, one rune at a time.\<close>

fun appendString_loop :: "string \<Rightarrow> string" where
  "appendString_loop [] = []"
| "appendString_loop (b # src) =
     (if (of_char b :: nat) < 0x80 then
        (if htmlSafe b then [b] else escape b) @ appendString_loop src
      else
        (case utf8_DecodeRune (b # src) of
           (c, sz) \<Rightarrow>
             if c = RuneError \<and> sz = 1 then
               bslash # ''ufffd'' @ appendString_loop src
             else if c = 0x2028 \<or> c = 0x2029 then
               bslash # ''u202'' @ hex (c mod 16) # appendString_loop (drop (sz - 1) src)
             else take sz (b # src) @ appendString_loop (drop (sz - 1) src)))"

definition appendString :: "string \<Rightarrow> string" where
  "appendString src = dquote # appendString_loop src @ [dquote]"

text \<open>The object of a \<^verbatim>\<open>Post\<close>: the key, the colon, the string and the closing brace.\<close>

definition header :: string where
  "header = CHR ''{'' # dquote # ''text'' @ [dquote, CHR '':'']"

definition json_bytes :: "Post \<Rightarrow> string" where
  "json_bytes post = header @ appendString (Text post) @ ''}''"

definition json_Marshal :: marshal where
  "json_Marshal post = Inr (json_bytes post)"

text \<open>\<^verbatim>\<open>utf8.ValidString\<close>: no ill-formed byte. The browser driver fills
  \<^verbatim>\<open>contentList\<close> through \<^verbatim>\<open>json.Unmarshal\<close>, which delivers valid strings only.\<close>

fun utf8_ValidString :: "string \<Rightarrow> bool" where
  "utf8_ValidString [] = True"
| "utf8_ValidString (b # src) =
     (if (of_char b :: nat) < 0x80 then utf8_ValidString src
      else
        (case utf8_DecodeRune (b # src) of
           (c, sz) \<Rightarrow> \<not> (c = RuneError \<and> sz = 1) \<and> utf8_ValidString (drop (sz - 1) src)))"

subsection \<open>Reading the file back, line by line\<close>

text \<open>
  The reader of the format (section 6 of the specification): the complete, newline-terminated
  lines of the file, each parsed as a JSON object \<^verbatim>\<open>{"text":"..."}\<close> with the escapes of
  RFC 8259. \<open>split_lines acc c\<close> is the list of the complete lines of \<open>rev acc @ c\<close> when
  \<open>acc\<close> holds no newline; what follows the last newline is no line.
\<close>

fun split_lines :: "string \<Rightarrow> string \<Rightarrow> string list" where
  "split_lines acc [] = []"
| "split_lines acc (c # cs) =
     (if c = newline then rev acc # split_lines [] cs else split_lines (c # acc) cs)"

definition file_lines :: "string \<Rightarrow> string list" where
  "file_lines c = split_lines [] c"

definition hexval :: "char \<Rightarrow> nat option" where
  "hexval c =
     (let x = of_char c :: nat in
      if 0x30 \<le> x \<and> x \<le> 0x39 then Some (x - 0x30)
      else if 0x61 \<le> x \<and> x \<le> 0x66 then Some (x - 0x61 + 10)
      else if 0x41 \<le> x \<and> x \<le> 0x46 then Some (x - 0x41 + 10)
      else None)"

definition hex4 :: "char \<Rightarrow> char \<Rightarrow> char \<Rightarrow> char \<Rightarrow> nat option" where
  "hex4 a b c d =
     (case (hexval a, hexval b, hexval c, hexval d) of
        (Some p, Some q, Some r, Some s) \<Rightarrow> Some (((p * 16 + q) * 16 + r) * 16 + s)
      | _ \<Rightarrow> None)"

text \<open>The UTF-8 encoding of a code point of the basic plane; a surrogate has none.\<close>

definition utf8_encode :: "nat \<Rightarrow> string option" where
  "utf8_encode cp =
     (if cp < 0x80 then Some [char_of cp]
      else if cp < 0x800 then Some [char_of (0xC0 + cp div 64), char_of (0x80 + cp mod 64)]
      else if 0xD800 \<le> cp \<and> cp < 0xE000 then None
      else Some [char_of (0xE0 + cp div 4096), char_of (0x80 + (cp div 64) mod 64),
                 char_of (0x80 + cp mod 64)])"

definition unescape :: "char \<Rightarrow> char option" where
  "unescape e =
     (if e = dquote \<or> e = bslash \<or> e = CHR ''/'' then Some e
      else if e = CHR ''b'' then Some (CHR 0x08)
      else if e = CHR ''f'' then Some (CHR 0x0C)
      else if e = CHR ''n'' then Some (CHR 0x0A)
      else if e = CHR ''r'' then Some (CHR 0x0D)
      else if e = CHR ''t'' then Some (CHR 0x09)
      else None)"

definition prepend :: "string \<Rightarrow> (string \<times> string) option \<Rightarrow> (string \<times> string) option" where
  "prepend p r = (case r of None \<Rightarrow> None | Some (t, rest) \<Rightarrow> Some (p @ t, rest))"

text \<open>\<open>unquote s\<close> reads a string literal after its opening quote: the text it denotes and
  what follows the closing quote.\<close>

fun unquote :: "string \<Rightarrow> (string \<times> string) option" where
  "unquote [] = None"
| "unquote (c # cs) =
     (if c = dquote then Some ([], cs)
      else if c = bslash then
        (case cs of
           [] \<Rightarrow> None
         | e # r \<Rightarrow>
             if e = CHR ''u'' then
               (case r of
                  h1 # h2 # h3 # h4 # r' \<Rightarrow>
                    (case hex4 h1 h2 h3 h4 of
                       None \<Rightarrow> None
                     | Some cp \<Rightarrow>
                         (case utf8_encode cp of
                            None \<Rightarrow> None
                          | Some p \<Rightarrow> prepend p (unquote r')))
                | _ \<Rightarrow> None)
             else
               (case unescape e of
                  None \<Rightarrow> None
                | Some b \<Rightarrow> prepend [b] (unquote r)))
      else if (of_char c :: nat) < 0x20 then None
      else prepend [c] (unquote cs))"

definition parse_record :: "string \<Rightarrow> Post option" where
  "parse_record l =
     (let h = header @ [dquote] in
      if prefix h l then
        (case unquote (drop (length h) l) of
           Some (t, rest) \<Rightarrow> if rest = ''}'' then Some \<lparr>Text = t\<rparr> else None
         | None \<Rightarrow> None)
      else None)"

text \<open>The records of a file: its lines that parse.\<close>

definition read_records :: "string \<Rightarrow> Post list" where
  "read_records c = List.map_filter parse_record (file_lines c)"

section \<open>Runs\<close>

text \<open>The state on entry to the loop: the clock reading, the store just made by
  \<^verbatim>\<open>make(map[string]bool)\<close>, the file just opened, nothing logged by the loop.\<close>

definition entry :: "nat \<Rightarrow> os_File \<Rightarrow> state" where
  "entry t f = \<lparr>now = t, postSet = fmempty, outfile = f, logs = []\<rparr>"

subsection \<open>The process around the loop\<close>

text \<open>
  The directories and files of the disk, and what the surroundings decide in one run: the
  result of \<^verbatim>\<open>godotenv.Load\<close>, the environment variables, what \<^verbatim>\<open>fmt.Scanln\<close> and the
  successive \<^verbatim>\<open>fmt.Scanf("%d")\<close> deliver (\<open>None\<close> for a failed scan), the result of the
  handshake \<^verbatim>\<open>chromedp.Run(Navigate, WaitVisible)\<close>, the wall-clock time formatted for the
  file name, the error of \<^verbatim>\<open>os.Stat\<close> when it fails for another reason than a missing path
  (a parent that is no directory, a permission), the results of \<^verbatim>\<open>os.Mkdir\<close> and
  \<^verbatim>\<open>os.OpenFile\<close>, the script of the writes,
  the clock reading when \<^verbatim>\<open>endTime\<close> is computed, the time from there to the first check
  of the loop condition, and the script of the cycles. Lines printed with \<^verbatim>\<open>fmt.Print\<close> go
  to the standard output and are left out; the log holds what goes through \<^verbatim>\<open>log\<close>.
\<close>

record disk =
  dirs :: "string set"
  files :: "string \<rightharpoonup> string"

record env =
  dotenv :: "error option"
  CHANNEL_NAME :: string
  OUTPUT_DIR :: string
  scanln :: "error option \<times> string"
  scanf :: "int option list"
  handshake :: "error option"
  timestamp :: string
  stat :: "error option"
  mkdir :: "error option"
  openfile :: "error option"
  writes :: "write_result list"
  clock :: nat
  delay :: nat
  cycles :: "cycle list"

definition minute :: nat where
  "minute = 60 * 1000000000"

text \<open>\<^verbatim>\<open>readNumber\<close> of \<^verbatim>\<open>src/main.go\<close> and the loop of \<^verbatim>\<open>readScrollDuration\<close> of
  \<^verbatim>\<open>part_000\<close>: the first scan that succeeds with a number from 1 to 60. \<open>None\<close>: the
  input ends before such a number comes, and the loop does not return.\<close>

fun readNumber :: "int option list \<Rightarrow> int option" where
  "readNumber [] = None"
| "readNumber (r # rs) =
     (case r of
        Some number \<Rightarrow> if number \<ge> 1 \<and> number \<le> 60 then Some number else readNumber rs
      | None \<Rightarrow> readNumber rs)"

definition createUniqueFilename :: "string \<Rightarrow> string \<Rightarrow> string" where
  "createUniqueFilename channelName stamp = channelName @ ''_posts_'' @ stamp @ ''.json''"

text \<open>
  \<^verbatim>\<open>filepath.Join\<close> on a Unix system joins its elements, from the first one that is not
  empty, with slashes and cleans the result. \<^verbatim>\<open>filepath.Clean\<close> goes through the elements
  of the path: an empty element and \<^verbatim>\<open>.\<close> are dropped; \<^verbatim>\<open>..\<close> removes the element
  written before it, is dropped at the root and is kept at the head of a relative path; every
  other element is written after a slash. A path of which nothing is left is \<^verbatim>\<open>.\<close>.
  \<open>clean_elems out rooted xs\<close> holds in \<open>out\<close> the elements written so far, the last one
  first.
\<close>

fun strings_Join :: "string list \<Rightarrow> string \<Rightarrow> string" where
  "strings_Join [] sep = []"
| "strings_Join [x] sep = x"
| "strings_Join (x # y # r) sep = x @ sep @ strings_Join (y # r) sep"

fun clean_elems :: "string list \<Rightarrow> bool \<Rightarrow> string list \<Rightarrow> string list" where
  "clean_elems out rooted [] = rev out"
| "clean_elems out rooted (x # xs) =
     (if x = [] \<or> x = ''.'' then clean_elems out rooted xs
      else if x = ''..'' then
        (case out of
           [] \<Rightarrow> if rooted then clean_elems out rooted xs else clean_elems [x] rooted xs
         | y # ys \<Rightarrow>
             if y = ''..'' then clean_elems (x # out) rooted xs else clean_elems ys rooted xs)
      else clean_elems (x # out) rooted xs)"

definition filepath_Clean :: "string \<Rightarrow> string" where
  "filepath_Clean path =
     (let rooted = (path \<noteq> [] \<and> hd path = CHR ''/'');
          out = clean_elems [] rooted (strings_Split path CHR ''/'');
          cleaned = (if rooted then ''/'' else []) @ strings_Join out ''/''
      in if cleaned = [] then ''.'' else cleaned)"

definition filepath_Join :: "string \<Rightarrow> string \<Rightarrow> string" where
  "filepath_Join dir name =
     (if dir \<noteq> [] then filepath_Clean (dir @ ''/'' @ name)
      else if name \<noteq> [] then filepath_Clean name
      else [])"

definition exists_path :: "disk \<Rightarrow> string \<Rightarrow> bool" where
  "exists_path d p = (p \<in> dirs d \<or> p \<in> dom (files d))"

text \<open>\<^verbatim>\<open>os.OpenFile(filePath, O_APPEND|O_CREATE|O_WRONLY, 0644)\<close>: a file that exists keeps
  its content, a file that does not is created empty.\<close>

definition os_OpenFile ::
  "string \<Rightarrow> error option \<Rightarrow> write_result list \<Rightarrow> disk \<Rightarrow> error + (os_File \<times> disk)" where
  "os_OpenFile name r ws d =
     (case r of
        Some err \<Rightarrow> Inl err
      | None \<Rightarrow>
          (let c = (case files d name of None \<Rightarrow> [] | Some c \<Rightarrow> c)
           in Inr (\<lparr>contents = c, faults = ws\<rparr>, d\<lparr>files := (files d)(name \<mapsto> c)\<rparr>)))"

text \<open>The disk when the process ends: the file holds what was written through the handle.\<close>

definition flush :: "string \<Rightarrow> state \<Rightarrow> disk \<Rightarrow> disk" where
  "flush name s d = d\<lparr>files := (files d)(name \<mapsto> contents (outfile s))\<rparr>"

definition main_go_readChannelName :: "error option \<times> string \<Rightarrow> error + string" where
  "main_go_readChannelName sc =
     (case fst sc of
        Some err \<Rightarrow> Inl err
      | None \<Rightarrow> Inr (main_go_extractChannelName (snd sc)))"

text \<open>\<^verbatim>\<open>createFolderIfNotExists\<close> of \<^verbatim>\<open>src/main.go\<close>, lines 153 to 166. The directory is
  made when \<^verbatim>\<open>os.Stat\<close> reports that the path does not exist; with a path that exists and
  with every other error of \<^verbatim>\<open>os.Stat\<close> the function returns \<^verbatim>\<open>nil\<close>. Its messages go to
  the standard output.\<close>

definition main_go_createFolderIfNotExists ::
  "string \<Rightarrow> error option \<Rightarrow> error option \<Rightarrow> disk \<Rightarrow> error + disk" where
  "main_go_createFolderIfNotExists folderName st mk d =
     (if st = None \<and> \<not> exists_path d folderName then
        (case mk of
           Some err \<Rightarrow> Inl err
         | None \<Rightarrow> Inr (d\<lparr>dirs := insert folderName (dirs d)\<rparr>))
      else Inr d)"

text \<open>\<^verbatim>\<open>main\<close> of \<^verbatim>\<open>src/main.go\<close>. The result is the disk and the log at the end of the
  process; \<open>None\<close> when the process does not end on the scripts given.\<close>

definition main_go :: "marshal \<Rightarrow> env \<Rightarrow> disk \<Rightarrow> (disk \<times> log_line list) exit option" where
  "main_go M e d =
     (case dotenv e of
        Some err \<Rightarrow>
          Some (Fatal (ExtError ''Error loading .env file'')
                  (d, [Println ''Error loading .env file'']))
      | None \<Rightarrow>
     (case (if CHANNEL_NAME e = [] then main_go_readChannelName (scanln e)
            else Inr (CHANNEL_NAME e)) of
        Inl err \<Rightarrow> Some (Fatal err (d, [PrintlnErr ''Error reading channel name:'' err]))
      | Inr channelName \<Rightarrow>
     (let l = [Println ''Navigating to the channel...''] in
      case handshake e of
        Some err \<Rightarrow> Some (Fatal err (d, l @ [PrintlnErr [] err]))
      | None \<Rightarrow>
     (let l = l @ [Println ''Successfully navigated to the channel.''] in
      case readNumber (scanf e) of
        None \<Rightarrow> None
      | Some timeToScroll \<Rightarrow>
     (let scrollDuration = nat timeToScroll * minute;
          endTime = clock e + scrollDuration;
          filename = createUniqueFilename channelName (timestamp e);
          postsDir = ''posts'' in
      case main_go_createFolderIfNotExists postsDir (stat e) (mkdir e) d of
        Inl err \<Rightarrow> Some (Fatal err (d, l @ [PrintlnErr [] err]))
      | Inr d \<Rightarrow>
     (let filePath = filepath_Join postsDir filename in
      case os_OpenFile filePath (openfile e) (writes e) d of
        Inl err \<Rightarrow>
          Some (Fatal err (d, l @ [PrintlnErr ''Error opening/creating JSON file:'' err]))
      | Inr (f, d) \<Rightarrow>
     (let l = l @ [Println ''Starting to scroll and collect unique posts...''] in
      case main_go_loop M endTime (cycles e) ((entry (clock e + delay e) f)\<lparr>logs := l\<rparr>) of
        None \<Rightarrow> None
      | Some (Fatal err s) \<Rightarrow> Some (Fatal err (flush filePath s d, logs s))
      | Some (Returned s) \<Rightarrow>
          Some (Returned (flush filePath s d,
                  logs s @ [Println ''Finished scrolling and collecting unique posts.''])))))))))"

text \<open>\<^verbatim>\<open>part_000\<close>: the configuration, the directory, \<^verbatim>\<open>scrapeChannel\<close> and
  \<^verbatim>\<open>main\<close>.\<close>

record Config =
  ChannelName :: string
  ScrollDuration :: nat
  OutputDir :: string

definition getEnvOrPrompt ::
  "string \<Rightarrow> error option \<times> string \<Rightarrow> (string \<Rightarrow> string) \<Rightarrow> string" where
  "getEnvOrPrompt v sc transformFunc = (if v = [] then transformFunc (snd sc) else v)"

definition getEnvOrDefault :: "string \<Rightarrow> string \<Rightarrow> string" where
  "getEnvOrDefault v defaultValue = (if v = [] then defaultValue else v)"

definition readScrollDuration :: "int option list \<Rightarrow> nat option" where
  "readScrollDuration rs = map_option (\<lambda>minutes. nat minutes * minute) (readNumber rs)"

definition NewConfig :: "env \<Rightarrow> (error + Config) option" where
  "NewConfig e =
     (case dotenv e of
        Some err \<Rightarrow> Some (Inl (Errorf ''error loading .env file'' err))
      | None \<Rightarrow>
          (let channelName = getEnvOrPrompt (CHANNEL_NAME e) (scanln e) extractChannelName in
           case readScrollDuration (scanf e) of
             None \<Rightarrow> None
           | Some scrollDuration \<Rightarrow>
               Some (Inr \<lparr>ChannelName = channelName, ScrollDuration = scrollDuration,
                          OutputDir = getEnvOrDefault (OUTPUT_DIR e) ''posts''\<rparr>)))"

text \<open>\<^verbatim>\<open>createFolderIfNotExists\<close> of \<^verbatim>\<open>part_000\<close>, lines 101 to 111: the same test, the
  error of \<^verbatim>\<open>os.Mkdir\<close> wrapped, and the messages, which name the folder between single
  quotes, logged.\<close>

definition squote :: char where
  "squote = CHR 0x27"

definition createFolderIfNotExists ::
  "string \<Rightarrow> error option \<Rightarrow> error option \<Rightarrow> disk \<Rightarrow> error + (disk \<times> log_line list)" where
  "createFolderIfNotExists folderName st mk d =
     (if st = None \<and> \<not> exists_path d folderName then
        (case mk of
           Some err \<Rightarrow> Inl (Errorf ''error creating output directory'' err)
         | None \<Rightarrow>
             Inr (d\<lparr>dirs := insert folderName (dirs d)\<rparr>,
                  [Println (''Folder '' @ squote # folderName @ squote # '' created.'')]))
      else Inr (d, [Println (''Folder '' @ squote # folderName @ squote # '' already exists.'')]))"

definition scrapeChannel ::
  "marshal \<Rightarrow> env \<Rightarrow> Config \<Rightarrow> disk \<Rightarrow> (error option \<times> disk \<times> log_line list) option" where
  "scrapeChannel M e cfg d =
     (let l = [Println ''Navigating to the channel...''] in
      case handshake e of
        Some err \<Rightarrow> Some (Some (Errorf ''error navigating to channel'' err), d, l)
      | None \<Rightarrow>
     (let l = l @ [Println ''Successfully navigated to the channel.''];
          filename = createUniqueFilename (ChannelName cfg) (timestamp e);
          filePath = filepath_Join (OutputDir cfg) filename in
      case os_OpenFile filePath (openfile e) (writes e) d of
        Inl err \<Rightarrow> Some (Some (Errorf ''error opening/creating JSON file'' err), d, l)
      | Inr (f, d) \<Rightarrow>
     (let l = l @ [Println ''Starting to scroll and collect unique posts...''];
          endTime = clock e + ScrollDuration cfg in
      case scrape_loop M endTime (cycles e) ((entry (clock e + delay e) f)\<lparr>logs := l\<rparr>) of
        None \<Rightarrow> None
      | Some s \<Rightarrow>
          Some (None, flush filePath s d,
                logs s @ [Println ''Finished scrolling and collecting unique posts.'']))))"

definition main :: "marshal \<Rightarrow> env \<Rightarrow> disk \<Rightarrow> (disk \<times> log_line list) exit option" where
  "main M e d =
     (case NewConfig e of
        None \<Rightarrow> None
      | Some (Inl err) \<Rightarrow>
          Some (Fatal err (d, [PrintlnErr ''error creating configuration:'' err]))
      | Some (Inr cfg) \<Rightarrow>
     (case createFolderIfNotExists (OutputDir cfg) (stat e) (mkdir e) d of
        Inl err \<Rightarrow> Some (Fatal err (d, [PrintlnErr ''error creating output directory:'' err]))
      | Inr (d, l0) \<Rightarrow>
     (case scrapeChannel M e cfg d of
        None \<Rightarrow> None
      | Some (Some err, d, l) \<Rightarrow>
          Some (Fatal err (d, l0 @ l @ [PrintlnErr ''error scraping channel:'' err]))
      | Some (None, d, l) \<Rightarrow> Some (Returned (d, l0 @ l)))))"

subsection \<open>Time and scenarios\<close>

text \<open>The time one turn of the loop takes, and the cycles of a script that the loop runs when
  it starts at time \<open>t\<close>: the clock alone decides, whatever the snapshots hold.\<close>

definition duration :: "cycle \<Rightarrow> nat" where
  "duration c = busy c + idle c"

fun executed :: "nat \<Rightarrow> nat \<Rightarrow> cycle list \<Rightarrow> cycle list" where
  "executed endTime t [] = []"
| "executed endTime t (c # cs) =
     (if t < endTime then c # executed endTime (t + duration c) cs else [])"

text \<open>The line that both programs log when they enter the loop.\<close>

definition starting :: log_line where
  "starting = Println ''Starting to scroll and collect unique posts...''"

definition second :: nat where
  "second = 1000000000"

text \<open>The line of the file for an item.\<close>

definition line :: "string \<Rightarrow> string" where
  "line t = json_bytes \<lparr>Text = t\<rparr> @ [newline]"

text \<open>
  The scenario of section 8 of the specification: a deadline of one minute and three cycles of
  twenty seconds with the snapshots \<^verbatim>\<open>["A","B"]\<close>, \<^verbatim>\<open>["B","C"]\<close>, \<^verbatim>\<open>["C"]\<close>. Then a
  script whose first snapshot fails, surroundings where nothing fails, and an empty disk.
\<close>

definition scenario :: "cycle list" where
  "scenario = [\<lparr>capture = Inr [''A'', ''B''], busy = 20000000000, idle = 0\<rparr>,
               \<lparr>capture = Inr [''B'', ''C''], busy = 20000000000, idle = 0\<rparr>,
               \<lparr>capture = Inr [''C''], busy = 20000000000, idle = 0\<rparr>]"

definition flaky :: "cycle list" where
  "flaky = [\<lparr>capture = Inl (ExtError ''websocket closed''), busy = 20 * second, idle = 0\<rparr>,
            \<lparr>capture = Inr [''A''], busy = 40 * second, idle = 0\<rparr>]"

text \<open>A file just created on a disk that fills up: the first write reaches the file, the
  second one fails with nothing written.\<close>

definition torn :: os_File where
  "torn = \<lparr>contents = [], faults = [WriteOK, WriteErr 0 ''no space left on device'']\<rparr>"

definition healthy :: env where
  "healthy = \<lparr>dotenv = None, CHANNEL_NAME = ''durov'', OUTPUT_DIR = [],
     scanln = (None, []), scanf = [Some 1], handshake = None, timestamp = ''20240101120000'',
     stat = None, mkdir = None, openfile = None, writes = [], clock = 0, delay = 0, cycles = []\<rparr>"

definition blank :: disk where
  "blank = \<lparr>dirs = {}, files = Map.empty\<rparr>"

text \<open>A disk on which the output directory and the output file of the run are there already,
  the file with the record of \<^verbatim>\<open>A\<close>: an earlier run of the same second, or a clock set
  back. Surroundings in which the second write to the file fails with nothing written. A script
  of one cycle that fills the minute.\<close>

definition reused :: disk where
  "reused = \<lparr>dirs = {''posts''},
              files = [''posts/durov_posts_20240101120000.json'' \<mapsto> line ''A'']\<rparr>"

definition failing :: env where
  "failing = healthy\<lparr>writes := [WriteOK, WriteErr 0 ''no space left on device'']\<rparr>"

definition single :: "cycle list" where
  "single = [\<lparr>capture = Inr [''A''], busy = 60 * second, idle = 0\<rparr>]"

text \<open>The scenario of section 8 of the specification with an append that fails: the first
  write of the run, the one of the object of \<^verbatim>\<open>X\<close>, fails with nothing written;
  \<^verbatim>\<open>Y\<close> follows in the same cycle, and both are seen again in the next one.\<close>

definition again :: "cycle list" where
  "again = [\<lparr>capture = Inr [''X'', ''Y''], busy = 30 * second, idle = 0\<rparr>,
            \<lparr>capture = Inr [''Y'', ''X''], busy = 30 * second, idle = 0\<rparr>]"

definition transient :: env where
  "transient = healthy\<lparr>writes := [WriteErr 0 ''input/output error''], cycles := again\<rparr>"

subsection \<open>What a run is measured against\<close>

text \<open>What a reader finds in the file at a path: nothing where there is no file.\<close>

definition stored :: "disk \<Rightarrow> string \<Rightarrow> string" where
  "stored d p = (case files d p of None \<Rightarrow> [] | Some c \<Rightarrow> c)"

text \<open>The path of the output file, as \<^verbatim>\<open>scrapeChannel\<close> of \<^verbatim>\<open>part_000\<close> and
  \<^verbatim>\<open>main\<close> of \<^verbatim>\<open>src/main.go\<close> compute it from the surroundings, and the handle that
  \<^verbatim>\<open>os.OpenFile\<close> gives for a path.\<close>

definition filePath :: "env \<Rightarrow> string" where
  "filePath e =
     filepath_Join (getEnvOrDefault (OUTPUT_DIR e) ''posts'')
       (createUniqueFilename (getEnvOrPrompt (CHANNEL_NAME e) (scanln e) extractChannelName)
          (timestamp e))"

definition main_go_filePath :: "env \<Rightarrow> string" where
  "main_go_filePath e =
     filepath_Join ''posts''
       (createUniqueFilename
          (if CHANNEL_NAME e = [] then main_go_extractChannelName (snd (scanln e))
           else CHANNEL_NAME e)
          (timestamp e))"

definition opened :: "env \<Rightarrow> disk \<Rightarrow> string \<Rightarrow> os_File" where
  "opened e d p = \<lparr>contents = stored d p, faults = writes e\<rparr>"

text \<open>The counts that the progress lines of a log report, in order.\<close>

fun counts :: "log_line list \<Rightarrow> nat list" where
  "counts [] = []"
| "counts (Progress n t # l) = n # counts l"
| "counts (x # l) = counts l"

text \<open>What follows the last newline of a file: the line that is not complete yet.\<close>

fun pending_acc :: "string \<Rightarrow> string \<Rightarrow> string" where
  "pending_acc acc [] = rev acc"
| "pending_acc acc (c # cs) =
     (if c = newline then pending_acc [] cs else pending_acc (c # acc) cs)"

definition pending :: "string \<Rightarrow> string" where
  "pending c = pending_acc [] c"

text \<open>A file of records: complete lines only, each of which parses.\<close>

definition well_formed :: "string \<Rightarrow> bool" where
  "well_formed c = (pending c = [] \<and> list_all (\<lambda>l. parse_record l \<noteq> None) (file_lines c))"

text \<open>The items of a list in the order in which they are first seen.\<close>

fun first_seen :: "string list \<Rightarrow> string list" where
  "first_seen [] = []"
| "first_seen (x # xs) = x # filter (\<lambda>y. y \<noteq> x) (first_seen xs)"

text \<open>The place where an item is first seen in a list.\<close>

definition first_index :: "string list \<Rightarrow> string \<Rightarrow> nat" where
  "first_index xs x = length (takeWhile (\<lambda>y. y \<noteq> x) xs)"

text \<open>The snapshot of a cycle; a call that fails delivers none.\<close>

definition items :: "cycle \<Rightarrow> string list" where
  "items c = (case capture c of Inl err \<Rightarrow> [] | Inr contentList \<Rightarrow> contentList)"

definition snapshots :: "cycle list \<Rightarrow> string list" where
  "snapshots cs = concat (map items cs)"

text \<open>The deadline of a run, once the number of minutes is read, and the items of the snapshots
  of the cycles that the run executes, in the order in which the loop handles them.\<close>

definition deadline :: "env \<Rightarrow> nat option" where
  "deadline e = map_option (\<lambda>k. clock e + nat k * minute) (readNumber (scanf e))"

definition seen :: "env \<Rightarrow> string list" where
  "seen e =
     (case deadline e of
        None \<Rightarrow> []
      | Some endTime \<Rightarrow> snapshots (executed endTime (clock e + delay e) (cycles e)))"

text \<open>The texts of the records of the file of a state, and the two ways a run can be well
  behaved: the serializer answers with the bytes of \<^verbatim>\<open>encoding/json\<close> whenever it answers,
  and no write of the script fails.\<close>

definition texts :: "state \<Rightarrow> string list" where
  "texts s = map Text (read_records (contents (outfile s)))"

definition serializer :: "marshal \<Rightarrow> bool" where
  "serializer M = (\<forall>p d. M p = Inr d \<longrightarrow> d = json_bytes p)"

definition all_ok :: "os_File \<Rightarrow> bool" where
  "all_ok f = list_all (\<lambda>r. r = WriteOK) (faults f)"

text \<open>The store and the file agree: no text occurs twice among the records of the file, and
  every text that occurs is marked in the store.\<close>

definition consistent :: "state \<Rightarrow> bool" where
  "consistent s = (distinct (texts s) \<and> list_all (index (postSet s)) (texts s))"

text \<open>From a state to a later one, a marked item is kept as it is: it is still marked, the
  file has only grown, and the records with its text are the ones that were there.\<close>

definition kept :: "string \<Rightarrow> state \<Rightarrow> state \<Rightarrow> bool" where
  "kept c s s' =
     (index (postSet s') c \<and> prefix (contents (outfile s)) (contents (outfile s'))
      \<and> filter (\<lambda>t. t = c) (texts s') = filter (\<lambda>t. t = c) (texts s))"

text \<open>An item is lost: marked in the store, with no record in the file.\<close>

definition lost :: "string \<Rightarrow> state \<Rightarrow> bool" where
  "lost c s = (consistent s \<and> index (postSet s) c \<and> c \<notin> set (texts s))"

text \<open>
  What the handling of one item does to the store and the file, in \<^verbatim>\<open>processPost\<close> and in
  the loop body of \<^verbatim>\<open>src/main.go\<close> alike: nothing for an item that is marked, the mark and
  the attempt to append for one that is not.
\<close>

definition item_step :: "marshal \<Rightarrow> string \<Rightarrow> state \<Rightarrow> state \<Rightarrow> bool" where
  "item_step M c s s' =
     (if index (postSet s) c then postSet s' = postSet s \<and> outfile s' = outfile s
      else postSet s' = fmupd c True (postSet s)
         \<and> outfile s' = snd (writePostToFile M \<lparr>Text = c\<rparr> (outfile s)))"

text \<open>The same as a function of the store and the file, and a list of items handled in
  order.\<close>

definition item_data :: "marshal \<Rightarrow> string \<Rightarrow> postSet \<times> os_File \<Rightarrow> postSet \<times> os_File" where
  "item_data M c d =
     (if index (fst d) c then d
      else (fmupd c True (fst d), snd (writePostToFile M \<lparr>Text = c\<rparr> (snd d))))"

definition absorb :: "marshal \<Rightarrow> string list \<Rightarrow> postSet \<times> os_File \<Rightarrow> postSet \<times> os_File" where
  "absorb M l d = fold (item_data M) l d"

definition data :: "state \<Rightarrow> postSet \<times> os_File" where
  "data s = (postSet s, outfile s)"

text \<open>The items that are new to a set of marked ones, in the order of their first
  appearance.\<close>

fun fresh_of :: "string set \<Rightarrow> string list \<Rightarrow> string list" where
  "fresh_of S [] = []"
| "fresh_of S (t # ts) = (if t \<in> S then fresh_of S ts else t # fresh_of (insert t S) ts)"

definition marked :: "state \<Rightarrow> string set" where
  "marked s = {k. index (postSet s) k}"

text \<open>A sequence of appends that all complete; \<open>None\<close> when one of them fails.\<close>

fun appends :: "marshal \<Rightarrow> Post list \<Rightarrow> os_File \<Rightarrow> os_File option" where
  "appends M [] f = Some f"
| "appends M (p # ps) f =
     (case writePostToFile M p f of
        (None, f) \<Rightarrow> appends M ps f
      | (Some err, f) \<Rightarrow> None)"

text \<open>The state in which a process has ended, fatally or not.\<close>

fun final :: "'a exit \<Rightarrow> 'a" where
  "final (Fatal err s) = s"
| "final (Returned s) = s"

section \<open>The two \<^verbatim>\<open>extractChannelName\<close> compared\<close>

lemma genSplit_nonempty: "genSplit s sep k \<noteq> []"
  by (cases k) auto

lemma count_tl_dropWhile:
  "sep \<in> set s \<Longrightarrow>
   strings_Count s sep = Suc (strings_Count (tl (dropWhile (\<lambda>c. c \<noteq> sep) s)) sep)"
  unfolding strings_Count_def
  by (induction s) auto

lemma count_zero_iff: "strings_Count s sep = 0 \<longleftrightarrow> sep \<notin> set s"
  unfolding strings_Count_def by (induction s) auto

lemma last_Split_no_sep: "k = strings_Count s sep \<Longrightarrow> sep \<notin> set (last (genSplit s sep k))"
proof (induction k arbitrary: s)
  case 0
  then show ?case by (simp add: count_zero_iff[symmetric])
next
  case (Suc k)
  then have "sep \<in> set s" using count_zero_iff[of s sep] by auto
  then show ?case using Suc count_tl_dropWhile[of sep s] by (simp add: genSplit_nonempty)
qed

lemma last_Split:
  "last (strings_Split s sep) =
     (if sep \<in> set s then last (strings_Split (tl (dropWhile (\<lambda>c. c \<noteq> sep) s)) sep) else s)"
  unfolding strings_Split_def
  using count_tl_dropWhile[of sep s] count_zero_iff[of s sep]
  by (auto simp: genSplit_nonempty)

lemma Split_index:
  "strings_Split s sep ! (length (strings_Split s sep) - 1) = last (strings_Split s sep)"
  unfolding strings_Split_def by (simp add: last_conv_nth genSplit_nonempty)

lemma SplitN2:
  "(let parts = strings_SplitN s sep 2 in if length parts > 1 then parts ! 1 else parts ! 0) =
   (if sep \<in> set s then tl (dropWhile (\<lambda>c. c \<noteq> sep) s) else s)"
proof (cases s)
  case Nil
  then show ?thesis by (simp add: strings_SplitN_def)
next
  case (Cons a as)
  then have "min 2 (length s + 1) - 1 = Suc 0" by simp
  then show ?thesis by (simp add: strings_SplitN_def Let_def)
qed

text \<open>
  Claim C9, as amended. The two functions agree exactly on the inputs that hold at most one
  slash once the prefixes \<^verbatim>\<open>@\<close> and \<^verbatim>\<open>https://t.me/\<close> are gone. With two slashes or
  more, \<^verbatim>\<open>src/main.go\<close> returns what follows the last slash and \<^verbatim>\<open>part_000\<close> what
  follows the first one.
\<close>

theorem extractChannelName_agree_iff:
  "main_go_extractChannelName s = extractChannelName s
     \<longleftrightarrow> strings_Count (trimmed s) CHR ''/'' \<le> 1"
proof -
  let ?t = "trimmed s" and ?sep = "CHR ''/''"
  let ?r = "tl (dropWhile (\<lambda>c. c \<noteq> ?sep) ?t)"
  have A: "main_go_extractChannelName s = last (strings_Split ?t ?sep)"
    using Split_index[of ?t ?sep]
    by (simp add: main_go_extractChannelName_def trimmed_def Let_def)
  have B: "extractChannelName s = (if ?sep \<in> set ?t then ?r else ?t)"
    using SplitN2[of ?t ?sep] by (simp add: extractChannelName_def trimmed_def Let_def)
  show ?thesis
  proof (cases "?sep \<in> set ?t")
    case False
    then show ?thesis using A B last_Split[of ?t ?sep] count_zero_iff[of ?t ?sep] by simp
  next
    case True
    then have cnt: "strings_Count ?t ?sep = Suc (strings_Count ?r ?sep)"
      by (rule count_tl_dropWhile)
    have A': "main_go_extractChannelName s = last (strings_Split ?r ?sep)"
      using A True last_Split[of ?t ?sep] by simp
    show ?thesis
    proof (cases "?sep \<in> set ?r")
      case False
      then show ?thesis
        using A' B True cnt last_Split[of ?r ?sep] count_zero_iff[of ?r ?sep] by simp
    next
      case T2: True
      have "?sep \<notin> set (last (strings_Split ?r ?sep))"
        unfolding strings_Split_def by (rule last_Split_no_sep) simp
      then have "last (strings_Split ?r ?sep) \<noteq> ?r" using T2 by metis
      moreover have "strings_Count ?r ?sep \<noteq> 0" using T2 count_zero_iff[of ?r ?sep] by simp
      ultimately show ?thesis using A' B True cnt by simp
    qed
  qed
qed

theorem extractChannelName_agree_witness:
  "main_go_extractChannelName ''@durov/12'' = extractChannelName ''@durov/12'' \<and>
   strings_Count (trimmed ''@durov/12'') CHR ''/'' \<le> 1"
  using extractChannelName_agree_iff[of "''@durov/12''"]
  by (simp add: trimmed_def strings_TrimPrefix_def strings_Count_def)

text \<open>Claim C9 as stated fails on the address of a single post.\<close>

theorem extractChannelName_differ:
  "main_go_extractChannelName ''https://t.me/s/durov/12'' = ''12'' \<and>
   extractChannelName ''https://t.me/s/durov/12'' = ''durov/12'' \<and>
   main_go_extractChannelName ''https://t.me/s/durov/12''
     \<noteq> extractChannelName ''https://t.me/s/durov/12''"
  by (simp add: main_go_extractChannelName_def extractChannelName_def strings_TrimPrefix_def
      strings_Split_def strings_SplitN_def strings_Count_def Let_def)

section \<open>The Item Store\<close>

lemma index_fmupd: "index (fmupd c True m) k = (k = c \<or> index m k)"
  by (auto simp: index_def)

lemma len_fmupd_new: "fmlookup m c = None \<Longrightarrow> len (fmupd c True m) = Suc (len m)"
  by (simp add: len_def fcard_finsert_disjoint fmdom_notI)

lemma processPost_again: "index (postSet s) c \<Longrightarrow> processPost M c s = (None, s)"
  by (simp add: processPost_def)

lemma main_go_item_again: "index (postSet s) c \<Longrightarrow> main_go_item M c s = s"
  by (simp add: main_go_item_def)

lemma processPost_new:
  "\<not> index (postSet s) c \<Longrightarrow>
   postSet (snd (processPost M c s)) = fmupd c True (postSet s) \<and>
   outfile (snd (processPost M c s)) = snd (writePostToFile M \<lparr>Text = c\<rparr> (outfile s)) \<and>
   now (snd (processPost M c s)) = now s \<and>
   fst (processPost M c s) = fst (writePostToFile M \<lparr>Text = c\<rparr> (outfile s))"
  by (simp add: processPost_def Let_def log_add_def split: prod.splits option.splits)

lemma main_go_item_new:
  "\<not> index (postSet s) c \<Longrightarrow>
   postSet (main_go_item M c s) = fmupd c True (postSet s) \<and>
   outfile (main_go_item M c s) = snd (writePostToFile M \<lparr>Text = c\<rparr> (outfile s)) \<and>
   now (main_go_item M c s) = now s"
  by (simp add: main_go_item_def writePostToFile_def Let_def log_add_def
           split: prod.splits option.splits sum.splits)

text \<open>
  Claim C8. The store has no \<^verbatim>\<open>Add\<close> of its own: adding is the test
  \<^verbatim>\<open>!postSet[content]\<close> followed by \<^verbatim>\<open>postSet[content] = true\<close>, at the head of
  \<^verbatim>\<open>processPost\<close> and of the loop body of \<^verbatim>\<open>src/main.go\<close>. For an identity that is not in
  the store, the first pass makes it present, grows the store by one and takes the branch of a
  new item (the write to the file is attempted); a second pass changes nothing at all, neither
  the store nor the file nor the log, and reports no error. The second pass is without effect
  from every state, whether the identity was absent or not.
\<close>

theorem store_add_idempotent:
  "(fmlookup (postSet s) c = None \<longrightarrow>
      (case processPost M c s of
         (r1, s1) \<Rightarrow>
           index (postSet s1) c \<and> len (postSet s1) = len (postSet s) + 1
           \<and> outfile s1 = snd (writePostToFile M \<lparr>Text = c\<rparr> (outfile s))
           \<and> processPost M c s1 = (None, s1))
      \<and> (let s1 = main_go_item M c s in
           index (postSet s1) c \<and> len (postSet s1) = len (postSet s) + 1
           \<and> outfile s1 = snd (writePostToFile M \<lparr>Text = c\<rparr> (outfile s))
           \<and> main_go_item M c s1 = s1))
   \<and> (case processPost M c s of (r1, s1) \<Rightarrow> processPost M c s1 = (None, s1))
   \<and> main_go_item M c (main_go_item M c s) = main_go_item M c s"
proof -
  have idx: "index (postSet (snd (processPost M c s))) c"
    using processPost_new[of s c M] processPost_again[of s c M]
    by (cases "index (postSet s) c") (auto simp: index_fmupd)
  have idx': "index (postSet (main_go_item M c s)) c"
    using main_go_item_new[of s c M] main_go_item_again[of s c M]
    by (cases "index (postSet s) c") (auto simp: index_fmupd)
  have twice: "processPost M c (snd (processPost M c s)) = (None, snd (processPost M c s))"
    using idx by (rule processPost_again)
  have twice': "main_go_item M c (main_go_item M c s) = main_go_item M c s"
    using idx' by (rule main_go_item_again)
  have new: "fmlookup (postSet s) c = None \<Longrightarrow> \<not> index (postSet s) c"
    by (simp add: index_def)
  show ?thesis
    using idx idx' twice twice' processPost_new[of s c M] main_go_item_new[of s c M] new
    by (auto simp: len_fmupd_new Let_def split: prod.splits)
qed

theorem store_add_idempotent_witness:
  "fmlookup (postSet (entry 0 \<lparr>contents = [], faults = []\<rparr>)) ''A'' = None \<and>
   len (postSet (snd (processPost json_Marshal ''A'' (entry 0 \<lparr>contents = [], faults = []\<rparr>)))) = 1 \<and>
   len (postSet (main_go_item json_Marshal ''A'' (entry 0 \<lparr>contents = [], faults = []\<rparr>))) = 1"
  using store_add_idempotent[of "entry 0 \<lparr>contents = [], faults = []\<rparr>" "''A''" json_Marshal]
  by (simp add: entry_def len_def Let_def split: prod.splits)

section \<open>The clock and the loop\<close>

lemmas run_defs = main_def NewConfig_def getEnvOrPrompt_def getEnvOrDefault_def
  readScrollDuration_def createFolderIfNotExists_def exists_path_def scrapeChannel_def
  createUniqueFilename_def filepath_Join_def filepath_Clean_def strings_Split_def
  strings_Count_def squote_def os_OpenFile_def flush_def entry_def
  scrape_cycle_def collectPosts_def processPost_def writePostToFile_def file_Write_def
  file_WriteString_def report_def log_add_def index_def len_def
  main_go_def main_go_readChannelName_def main_go_createFolderIfNotExists_def
  main_go_cycle_def main_go_item_def
  json_Marshal_def json_bytes_def header_def appendString_def htmlSafe_def dquote_def bslash_def
  minute_def second_def Let_def healthy_def blank_def line_def

lemma serializer_json: "serializer json_Marshal"
  by (simp add: serializer_def json_Marshal_def)

lemma scenario_valid: "list_all utf8_ValidString (snapshots scenario)"
  by (simp add: scenario_def snapshots_def items_def)

lemma now_processPost: "processPost M c s = (r, s') \<Longrightarrow> now s' = now s"
  by (auto simp: processPost_def Let_def log_add_def split: prod.splits option.splits if_splits)

lemma now_range_processPost: "now (range_processPost M cs s) = now s"
proof (induction cs arbitrary: s)
  case Nil show ?case by simp
next
  case (Cons c cs)
  obtain r s1 where p: "processPost M c s = (r, s1)" by (cases "processPost M c s")
  show ?case using now_processPost[OF p] p
    by (cases r) (simp_all add: Cons.IH log_add_def)
qed

lemma now_scrape_cycle: "now (scrape_cycle M endTime c s) = now s + duration c"
  using now_range_processPost[of M _ s]
  by (simp add: scrape_cycle_def collectPosts_def report_def log_add_def Let_def duration_def
       split: sum.splits)

lemma now_main_go_item: "now (main_go_item M c s) = now s"
  by (simp add: main_go_item_def Let_def log_add_def split: prod.splits option.splits sum.splits)

lemma now_main_go_range: "now (main_go_range M cs s) = now s"
  by (induction cs arbitrary: s) (simp_all add: now_main_go_item)

lemma now_main_go_cycle: "main_go_cycle M endTime c s = Inr s' \<Longrightarrow> now s' = now s + duration c"
  by (auto simp: main_go_cycle_def report_def log_add_def Let_def duration_def now_main_go_range
       split: sum.splits)

lemma scrape_loop_time:
  "scrape_loop M endTime cs s = Some s' \<Longrightarrow>
   endTime \<le> now s' \<and>
   now s' = now s + sum_list (map duration (executed endTime (now s) cs)) \<and>
   (executed endTime (now s) cs \<noteq> [] \<longrightarrow>
      now s' < endTime + duration (last (executed endTime (now s) cs)))"
proof (induction cs arbitrary: s)
  case Nil
  then show ?case by (simp split: if_splits)
next
  case (Cons c cs)
  show ?case
  proof (cases "now s < endTime")
    case False
    with Cons.prems show ?thesis by simp
  next
    case True
    let ?s1 = "scrape_cycle M endTime c s"
    from Cons.prems True have run: "scrape_loop M endTime cs ?s1 = Some s'" by simp
    note IH = Cons.IH[OF run]
    have t1: "now ?s1 = now s + duration c" by (rule now_scrape_cycle)
    show ?thesis
    proof (cases "executed endTime (now ?s1) cs = []")
      case True
      then have "now s' = now ?s1" using IH by simp
      then show ?thesis using IH \<open>now s < endTime\<close> True t1 by simp
    next
      case False
      then show ?thesis using IH \<open>now s < endTime\<close> t1 by simp
    qed
  qed
qed

lemma scrape_loop_returns:
  "endTime \<le> now s + sum_list (map duration cs) \<Longrightarrow> scrape_loop M endTime cs s \<noteq> None"
proof (induction cs arbitrary: s)
  case Nil
  then show ?case by simp
next
  case (Cons c cs)
  have "endTime \<le> now (scrape_cycle M endTime c s) + sum_list (map duration cs)"
    using Cons.prems by (simp add: now_scrape_cycle)
  then show ?case using Cons.IH by simp
qed

lemma main_go_loop_time:
  "main_go_loop M endTime cs s = Some (Returned s') \<Longrightarrow>
   endTime \<le> now s' \<and>
   now s' = now s + sum_list (map duration (executed endTime (now s) cs)) \<and>
   (executed endTime (now s) cs \<noteq> [] \<longrightarrow>
      now s' < endTime + duration (last (executed endTime (now s) cs)))"
proof (induction cs arbitrary: s)
  case Nil
  then show ?case by (simp split: if_splits)
next
  case (Cons c cs)
  show ?case
  proof (cases "now s < endTime")
    case False
    with Cons.prems show ?thesis by simp
  next
    case True
    from Cons.prems True obtain s1 where
      c1: "main_go_cycle M endTime c s = Inr s1" and run: "main_go_loop M endTime cs s1 = Some (Returned s')"
      by (auto split: sum.splits)
    note IH = Cons.IH[OF run]
    have t1: "now s1 = now s + duration c" using c1 by (rule now_main_go_cycle)
    show ?thesis
    proof (cases "executed endTime (now s1) cs = []")
      case True
      then have "now s' = now s1" using IH by simp
      then show ?thesis using IH \<open>now s < endTime\<close> True t1 by simp
    next
      case False
      then show ?thesis using IH \<open>now s < endTime\<close> t1 by simp
    qed
  qed
qed

lemma main_go_loop_returns:
  "endTime \<le> now s + sum_list (map duration cs) \<Longrightarrow> main_go_loop M endTime cs s \<noteq> None"
proof (induction cs arbitrary: s)
  case Nil
  then show ?case by simp
next
  case (Cons c cs)
  show ?case
  proof (cases "main_go_cycle M endTime c s")
    case (Inl err)
    then show ?thesis by simp
  next
    case (Inr s1)
    then have "endTime \<le> now s1 + sum_list (map duration cs)"
      using Cons.prems now_main_go_cycle[OF Inr] by simp
    then show ?thesis using Cons.IH Inr by simp
  qed
qed

text \<open>
  Claim C7. A loop that returns does so at a reading of the clock that is at or after the
  deadline, never before. That reading is the start plus the durations of the cycles it ran,
  and the last of them had started before the deadline: the loop ends less than the duration of
  that cycle after the deadline, because the deadline is looked at only between cycles. Which
  cycles run depends on the clock alone, not on what the snapshots hold. And the loop does
  return: once the durations of the scripted cycles reach the deadline, the result is not
  \<open>None\<close> (for \<^verbatim>\<open>src/main.go\<close> it is the normal end or the fatal end of a failed snapshot).
\<close>

theorem loop_ends_at_deadline:
  "(scrape_loop M endTime cs s = Some s' \<longrightarrow>
      endTime \<le> now s' \<and>
      now s' = now s + sum_list (map duration (executed endTime (now s) cs)) \<and>
      (executed endTime (now s) cs \<noteq> [] \<longrightarrow>
         now s' < endTime + duration (last (executed endTime (now s) cs))))
   \<and> (main_go_loop M endTime cs s = Some (Returned s') \<longrightarrow>
      endTime \<le> now s' \<and>
      now s' = now s + sum_list (map duration (executed endTime (now s) cs)) \<and>
      (executed endTime (now s) cs \<noteq> [] \<longrightarrow>
         now s' < endTime + duration (last (executed endTime (now s) cs))))
   \<and> (endTime \<le> now s + sum_list (map duration cs) \<longrightarrow>
        scrape_loop M endTime cs s \<noteq> None \<and> main_go_loop M endTime cs s \<noteq> None)"
  using scrape_loop_time[of M endTime cs s s'] main_go_loop_time[of M endTime cs s s']
    scrape_loop_returns[of endTime s cs M] main_go_loop_returns[of endTime s cs M]
  by blast


theorem loop_ends_at_deadline_witness:
  "scrape_loop json_Marshal minute scenario (entry 0 \<lparr>contents = [], faults = []\<rparr>) \<noteq> None
   \<and> minute \<le> now (the (scrape_loop json_Marshal minute scenario
                          (entry 0 \<lparr>contents = [], faults = []\<rparr>)))
   \<and> main_go_loop json_Marshal minute scenario (entry 0 \<lparr>contents = [], faults = []\<rparr>) \<noteq> None"
proof -
  let ?s = "entry 0 \<lparr>contents = [], faults = []\<rparr>"
  have "minute \<le> now ?s + sum_list (map duration scenario)"
    by (simp add: scenario_def duration_def minute_def entry_def)
  with loop_ends_at_deadline[of json_Marshal minute scenario ?s
      "the (scrape_loop json_Marshal minute scenario ?s)"]
  show ?thesis by auto
qed


section \<open>A snapshot that fails\<close>

lemma collectPosts_fail:
  "capture c = Inl err \<Longrightarrow> collectPosts M c s = (Some (Errorf ''error scraping posts'' err), s)"
  by (simp add: collectPosts_def)

lemma main_go_loop_fatal:
  "list_all (\<lambda>c. \<exists>l. capture c = Inr l) pre \<Longrightarrow> capture c = Inl err \<Longrightarrow>
   now s + sum_list (map duration pre) < endTime \<Longrightarrow>
   \<exists>s'. main_go_loop M endTime (pre @ c # post) s = Some (Fatal err s')"
proof (induction pre arbitrary: s)
  case Nil
  then show ?case by (simp add: main_go_cycle_def)
next
  case (Cons p pre)
  from Cons.prems(1) obtain l where l: "capture p = Inr l" by auto
  then obtain s1 where s1: "main_go_cycle M endTime p s = Inr s1"
    by (simp add: main_go_cycle_def Let_def)
  have t: "now s1 = now s + duration p" using s1 by (rule now_main_go_cycle)
  have lt: "now s < endTime" using Cons.prems(3) by simp
  have "now s1 + sum_list (map duration pre) < endTime" using Cons.prems(3) t by simp
  with Cons.IH[of s1] Cons.prems have
    "\<exists>s'. main_go_loop M endTime (pre @ c # post) s1 = Some (Fatal err s')"
    by simp
  then show ?case using s1 lt by simp
qed

lemma main_go_loop_stops:
  "capture c = Inl err \<Longrightarrow> now s + sum_list (map duration pre) < endTime \<Longrightarrow>
   main_go_loop M endTime (pre @ c # post) s = main_go_loop M endTime (pre @ [c]) s"
proof (induction pre arbitrary: s)
  case Nil
  then show ?case by (simp add: main_go_cycle_def)
next
  case (Cons p pre)
  have lt: "now s < endTime" using Cons.prems(2) by simp
  show ?case
  proof (cases "main_go_cycle M endTime p s")
    case (Inl e)
    then show ?thesis using lt by simp
  next
    case (Inr s1)
    have "now s1 + sum_list (map duration pre) < endTime"
      using Cons.prems(2) now_main_go_cycle[OF Inr] by simp
    then show ?thesis using Cons.IH[of s1] Cons.prems(1) Inr lt by simp
  qed
qed

text \<open>
  Claim C1, as amended. In \<^verbatim>\<open>src/main.go\<close> the first snapshot call that fails in a cycle
  begun before the deadline ends the run with \<^verbatim>\<open>log.Fatal\<close>: the result is fatal with that
  error, the store and the file are as the cycles before left them, and the cycles after it play
  no part (the result is the same whatever follows). In \<^verbatim>\<open>part_000\<close> the error of
  \<^verbatim>\<open>collectPosts\<close> is logged by \<^verbatim>\<open>scrapeChannel\<close>: the cycle leaves the store and the file
  as they were, logs the error and the progress line, and the loop goes on with the next cycle.
\<close>

theorem capture_failure:
  "(list_all (\<lambda>c. \<exists>l. capture c = Inr l) pre \<and> capture c = Inl err \<and>
      now s + sum_list (map duration pre) < endTime \<longrightarrow>
      (\<exists>s'. main_go_loop M endTime (pre @ c # post) s = Some (Fatal err s')) \<and>
      main_go_loop M endTime (pre @ c # post) s = main_go_loop M endTime (pre @ [c]) s)
   \<and> (capture c = Inl err \<and> now s < endTime \<longrightarrow>
      main_go_loop M endTime (c # post) s
        = Some (Fatal err (log_add (PrintlnErr [] err) (s\<lparr>now := now s + busy c\<rparr>)))
      \<and> postSet (scrape_cycle M endTime c s) = postSet s
      \<and> outfile (scrape_cycle M endTime c s) = outfile s
      \<and> logs (scrape_cycle M endTime c s) =
          logs s @ [PrintlnErr [] (Errorf ''error scraping posts'' err),
                    Progress (len (postSet s)) (int endTime - int (now s + busy c))]
      \<and> scrape_loop M endTime (c # post) s
          = scrape_loop M endTime post (scrape_cycle M endTime c s))"
  using main_go_loop_fatal[of pre c err s endTime M post]
    main_go_loop_stops[of c err s pre endTime M post]
  by (auto simp: main_go_cycle_def scrape_cycle_def collectPosts_fail report_def log_add_def
        Let_def)


theorem capture_failure_witness:
  "capture (hd flaky) = Inl (ExtError ''websocket closed'')
   \<and> now (entry 0 \<lparr>contents = [], faults = []\<rparr>) < minute
   \<and> main_go_loop json_Marshal minute (flaky @ scenario) (entry 0 \<lparr>contents = [], faults = []\<rparr>)
     = Some (Fatal (ExtError ''websocket closed'')
         \<lparr>now = 20 * second, postSet = fmempty, outfile = \<lparr>contents = [], faults = []\<rparr>,
          logs = [PrintlnErr [] (ExtError ''websocket closed'')]\<rparr>)
   \<and> scrape_loop json_Marshal minute (flaky @ scenario) (entry 0 \<lparr>contents = [], faults = []\<rparr>)
     = scrape_loop json_Marshal minute (tl flaky @ scenario)
         \<lparr>now = 20 * second, postSet = fmempty, outfile = \<lparr>contents = [], faults = []\<rparr>,
          logs = [PrintlnErr [] (Errorf ''error scraping posts'' (ExtError ''websocket closed'')),
                  Progress 0 40000000000]\<rparr>"
proof -
  let ?s = "entry 0 \<lparr>contents = [], faults = []\<rparr>"
  let ?e = "ExtError ''websocket closed''"
  have h: "capture (hd flaky) = Inl ?e" "now ?s < minute" "list_all (\<lambda>c. \<exists>l. capture c = Inr l) []"
    "now ?s + sum_list (map duration []) < minute"
    by (simp_all add: flaky_def entry_def minute_def)
  have fl: "flaky @ scenario = hd flaky # (tl flaky @ scenario)" by (simp add: flaky_def)
  note T = capture_failure[where pre = "[]" and c = "hd flaky" and err = ?e and s = ?s
      and endTime = minute and M = json_Marshal and post = "tl flaky @ scenario"]
  have 1: "main_go_loop json_Marshal minute (hd flaky # (tl flaky @ scenario)) ?s
        = Some (Fatal ?e (log_add (PrintlnErr [] ?e) (?s\<lparr>now := now ?s + busy (hd flaky)\<rparr>)))"
    using T h by blast
  have 2: "scrape_loop json_Marshal minute (hd flaky # (tl flaky @ scenario)) ?s
          = scrape_loop json_Marshal minute (tl flaky @ scenario)
              (scrape_cycle json_Marshal minute (hd flaky) ?s)"
    using T h by blast
  have 3: "scrape_cycle json_Marshal minute (hd flaky) ?s
         = \<lparr>now = 20 * second, postSet = fmempty, outfile = \<lparr>contents = [], faults = []\<rparr>,
          logs = [PrintlnErr [] (Errorf ''error scraping posts'' ?e), Progress 0 40000000000]\<rparr>"
    by (simp add: run_defs flaky_def)
  have 4: "log_add (PrintlnErr [] ?e) (?s\<lparr>now := now ?s + busy (hd flaky)\<rparr>)
         = \<lparr>now = 20 * second, postSet = fmempty, outfile = \<lparr>contents = [], faults = []\<rparr>,
          logs = [PrintlnErr [] ?e]\<rparr>"
    by (simp add: log_add_def entry_def flaky_def)
  show ?thesis using h(1,2) 1 2 unfolding fl 3 4 by simp
qed

text \<open>Claim C1 as stated fails for \<^verbatim>\<open>part_000\<close>: the first snapshot fails, the run goes on,
  writes the item of the second snapshot and ends normally.\<close>

theorem capture_failure_goes_on:
  "(case main json_Marshal (healthy\<lparr>cycles := flaky\<rparr>) blank of
      Some (Returned (d, l)) \<Rightarrow> files d ''posts/durov_posts_20240101120000.json'' = Some (line ''A'')
    | _ \<Rightarrow> False)"
  by (simp add: run_defs flaky_def)

section \<open>A handshake that fails\<close>

lemma main_go_handshake:
  "handshake e = Some err \<Longrightarrow>
   \<exists>err' l. main_go M e d = Some (Fatal err' (d, l)) \<and> starting \<notin> set l"
proof (cases "dotenv e")
  case (Some a)
  then show ?thesis by (simp add: main_go_def starting_def)
next
  case None
  assume h: "handshake e = Some err"
  show ?thesis
  proof (cases "if CHANNEL_NAME e = [] then main_go_readChannelName (scanln e)
            else Inr (CHANNEL_NAME e)")
    case (Inl a)
    then show ?thesis using None by (simp add: main_go_def starting_def)
  next
    case (Inr b)
    then show ?thesis using None h by (simp add: main_go_def starting_def)
  qed
qed

lemma scrapeChannel_handshake:
  "handshake e = Some err \<Longrightarrow>
   scrapeChannel M e cfg d =
     Some (Some (Errorf ''error navigating to channel'' err), d,
           [Println ''Navigating to the channel...''])"
  by (simp add: scrapeChannel_def)

lemma createFolderIfNotExists_files:
  "createFolderIfNotExists n st mk d = Inr (d', l) \<Longrightarrow> files d' = files d \<and> starting \<notin> set l"
  by (auto simp: createFolderIfNotExists_def starting_def split: if_splits option.splits)

lemma main_handshake:
  "handshake e = Some err \<Longrightarrow>
   (main M e d = None \<longleftrightarrow> NewConfig e = None) \<and>
   (\<forall>r. main M e d = Some r \<longrightarrow>
      (\<exists>err' d' l. r = Fatal err' (d', l) \<and> files d' = files d \<and> starting \<notin> set l))"
proof (cases "NewConfig e")
  case None
  then show ?thesis by (simp add: main_def)
next
  case (Some a)
  assume h: "handshake e = Some err"
  show ?thesis
  proof (cases a)
    case (Inl x)
    then show ?thesis using Some by (simp add: main_def starting_def)
  next
    case (Inr cfg)
    show ?thesis
    proof (cases "createFolderIfNotExists (OutputDir cfg) (stat e) (mkdir e) d")
      case (Inl x)
      then show ?thesis using Some Inr by (simp add: main_def starting_def)
    next
      case r: (Inr p)
      obtain d' l where p: "p = (d', l)" by (cases p)
      have "files d' = files d \<and> starting \<notin> set l"
        using r p createFolderIfNotExists_files by blast
      then show ?thesis
        using Some Inr r p scrapeChannel_handshake[OF h, of M cfg d']
        by (simp add: main_def starting_def)
    qed
  qed
qed

text \<open>
  Claim C6. When the handshake fails, \<^verbatim>\<open>src/main.go\<close> ends fatally with the disk untouched,
  and \<^verbatim>\<open>part_000\<close>, once its configuration is read, ends fatally with the files of the disk
  untouched (it may have created the output directory). Neither has logged the line that opens
  the loop: the run ends before it collects.
\<close>

theorem handshake_failure:
  "handshake e = Some err \<longrightarrow>
     (\<exists>err' l. main_go M e d = Some (Fatal err' (d, l)) \<and> starting \<notin> set l)
   \<and> (main M e d = None \<longleftrightarrow> NewConfig e = None)
   \<and> (\<forall>r. main M e d = Some r \<longrightarrow>
         (\<exists>err' d' l. r = Fatal err' (d', l) \<and> files d' = files d \<and> starting \<notin> set l))"
  using main_go_handshake[of e err M d] main_handshake[of e err M d] by blast




theorem handshake_failure_witness:
  "handshake (healthy\<lparr>handshake := Some (ExtError ''timeout''), cycles := scenario\<rparr>)
     = Some (ExtError ''timeout'')
   \<and> (\<exists>err' l. main_go json_Marshal
          (healthy\<lparr>handshake := Some (ExtError ''timeout''), cycles := scenario\<rparr>) blank
            = Some (Fatal err' (blank, l)))
   \<and> main json_Marshal (healthy\<lparr>handshake := Some (ExtError ''timeout''), cycles := scenario\<rparr>) blank
     = Some (Fatal (Errorf ''error navigating to channel'' (ExtError ''timeout''))
         (blank\<lparr>dirs := {''posts''}\<rparr>,
          [Println (''Folder '' @ CHR 0x27 # ''posts'' @ CHR 0x27 # '' created.''),
           Println ''Navigating to the channel...'',
           PrintlnErr ''error scraping channel:''
             (Errorf ''error navigating to channel'' (ExtError ''timeout''))]))"
proof -
  let ?e = "healthy\<lparr>handshake := Some (ExtError ''timeout''), cycles := scenario\<rparr>"
  have h: "handshake ?e = Some (ExtError ''timeout'')" by simp
  have m: "main json_Marshal ?e blank
     = Some (Fatal (Errorf ''error navigating to channel'' (ExtError ''timeout''))
         (blank\<lparr>dirs := {''posts''}\<rparr>,
          [Println (''Folder '' @ CHR 0x27 # ''posts'' @ CHR 0x27 # '' created.''),
           Println ''Navigating to the channel...'',
           PrintlnErr ''error scraping channel:''
             (Errorf ''error navigating to channel'' (ExtError ''timeout''))]))"
    by (simp add: run_defs)
  from handshake_failure[of ?e "ExtError ''timeout''" json_Marshal blank] h
  have "\<exists>err' l. main_go json_Marshal ?e blank = Some (Fatal err' (blank, l))" by blast
  with h m show ?thesis by blast
qed


section \<open>The format: what is written can be read back\<close>

lemma hex_digit: "n < 16 \<Longrightarrow> hex n \<in> set ''0123456789abcdef''"
  unfolding hex_def by (rule nth_mem) simp

lemma below16: "n < 16 \<Longrightarrow> n \<in> {0,1,2,3,4,5,6,7,8,9,10,11,12,13,14,15::nat}"
  by (simp only: insert_iff empty_iff) arith

lemma hexval_hex: "n < 16 \<Longrightarrow> hexval (hex n) = Some n"
  using below16[of n] by (auto simp: hex_def hexval_def)

lemma hex_not_newline: "n < 16 \<Longrightarrow> hex n \<noteq> CHR 0x0A \<and> CHR 0x0A \<noteq> hex n"
  using below16[of n] by (auto simp: hex_def)

text \<open>What the decoder says about a string that starts with a byte from 0x80 on.\<close>

lemma DecodeRune_cases:
  assumes "(0x80::nat) \<le> of_char b" and "utf8_DecodeRune (b # src) = (c, sz)"
  shows "(c = RuneError \<and> sz = 1) \<or>
         (2 \<le> sz \<and> sz \<le> 4 \<and> sz \<le> length (b # src) \<and>
          (\<forall>x \<in> set (take sz (b # src)). (0x80::nat) \<le> of_char x))"
  using assms
  by (auto simp: Let_def cont_def accept_lo_def accept_hi_def
       split: if_splits list.splits)


lemma escape_no_newline: "(of_char b :: nat) < 0x80 \<Longrightarrow> newline \<notin> set (escape b)"
proof -
  assume "(of_char b :: nat) < 0x80"
  then have "(of_char b :: nat) div 16 < 16" "(of_char b :: nat) mod 16 < 16" by auto
  then show ?thesis
    using hex_not_newline[of "of_char b div 16"] hex_not_newline[of "of_char b mod 16"]
    by (auto simp: escape_def newline_def bslash_def dquote_def)
qed

lemma high_not_newline: "(0x80::nat) \<le> of_char x \<Longrightarrow> x \<noteq> newline"
  by (auto simp: newline_def)

lemma loop_no_newline: "newline \<notin> set (appendString_loop t)"
proof (induction t rule: appendString_loop.induct)
  case 1
  show ?case by simp
next
  case (2 b src)
  show ?case
  proof (cases "(of_char b :: nat) < 0x80")
    case True
    then have "newline \<notin> set (appendString_loop src)" using "2.IH"(1) by simp
    moreover have "htmlSafe b \<Longrightarrow> b \<noteq> newline" by (auto simp: htmlSafe_def newline_def)
    ultimately show ?thesis using True escape_no_newline[OF True] by auto
  next
    case False
    obtain c sz where d: "utf8_DecodeRune (b # src) = (c, sz)"
      by (cases "utf8_DecodeRune (b # src)")
    from False have hi: "(0x80::nat) \<le> of_char b" by simp
    note cs = DecodeRune_cases[OF hi d]
    show ?thesis
    proof (cases "c = RuneError \<and> sz = 1")
      case True
      then have "newline \<notin> set (appendString_loop src)" using "2.IH"(2)[OF False d[symmetric]] by simp
      then show ?thesis using False d True by (simp add: newline_def bslash_def)
    next
      case ne: False
      have rest: "newline \<notin> set (appendString_loop (drop (sz - 1) src))"
      proof (cases "c = 0x2028 \<or> c = 0x2029")
        case True
        then show ?thesis using "2.IH"(3)[OF False d[symmetric] ne] by simp
      next
        case F2: False
        then show ?thesis using "2.IH"(4)[OF False d[symmetric] ne] by simp
      qed
      have cp: "newline \<notin> set (take sz (b # src))"
        using cs ne high_not_newline by blast
      have hx: "hex (c mod 16) \<noteq> CHR 0x0A" using hex_not_newline[of "c mod 16"] by simp
      show ?thesis using False d ne rest cp hx
        by (auto simp: newline_def bslash_def simp del: take_Suc_Cons take_Cons_numeral)
    qed
  qed
qed


lemma prepend_Some [simp]: "prepend p (Some (t, rest)) = Some (p @ t, rest)"
  by (simp add: prepend_def)

lemma prepend_None [simp]: "prepend p None = None"
  by (simp add: prepend_def)

lemma prepend_eq_Some: "prepend p r = Some (t, rest) \<Longrightarrow> \<exists>t'. r = Some (t', rest)"
  by (cases r) (auto simp: prepend_def)

lemma unquote_plain:
  "c \<noteq> dquote \<Longrightarrow> c \<noteq> bslash \<Longrightarrow> (0x20::nat) \<le> of_char c \<Longrightarrow>
   unquote (c # cs) = prepend [c] (unquote cs)"
  by simp

lemma unquote_high:
  "\<forall>x \<in> set hs. (0x80::nat) \<le> of_char x \<Longrightarrow> unquote (hs @ X) = prepend hs (unquote X)"
proof (induction hs)
  case Nil
  show ?case by (cases "unquote X") (auto simp: prepend_def)
next
  case (Cons h hs)
  then have h: "(0x80::nat) \<le> of_char h" by simp
  then have "h \<noteq> dquote" "h \<noteq> bslash" "(0x20::nat) \<le> of_char h"
    by (auto simp: dquote_def bslash_def)
  then have "unquote (h # hs @ X) = prepend [h] (unquote (hs @ X))" by (rule unquote_plain)
  then show ?case using Cons by (cases "unquote X") (auto simp: prepend_def)
qed

lemma unquote_escape:
  assumes lt: "(of_char b :: nat) < 0x80" and ns: "\<not> htmlSafe b"
  shows "unquote (escape b @ X) = prepend [b] (unquote X)"
proof -
  let ?x = "of_char b :: nat"
  have hi: "?x div 16 < 16" and lo: "?x mod 16 < 16" using lt by auto
  have h4: "hex4 CHR ''0'' CHR ''0'' (hex (?x div 16)) (hex (?x mod 16)) = Some ?x"
    using hexval_hex[OF hi] hexval_hex[OF lo] by (simp add: hex4_def hexval_def)
  have enc: "utf8_encode ?x = Some [b]" using lt by (simp add: utf8_encode_def)
  show ?thesis
    using h4 enc
    by (simp add: escape_def unescape_def bslash_def dquote_def)
qed


lemma char_eqI: "(of_char a :: nat) = of_char b \<Longrightarrow> a = b"
  by (metis char_of_char)

lemma mod_range: "k * m \<le> x \<Longrightarrow> x < k * m + m \<Longrightarrow> (x::nat) mod m = x - k * m"
proof -
  assume a: "k * m \<le> x" "x < k * m + m"
  have "(x - k * m + k * m) mod m = (x - k * m) mod m" by (rule mod_mult_self1)
  moreover have "x - k * m + k * m = x" using a by simp
  moreover have "(x - k * m) mod m = x - k * m" using a by (intro mod_less) arith
  ultimately show ?thesis by simp
qed

lemma sep2:
  fixes s0 s1 c :: nat
  assumes "(s0 mod 32) * 64 + s1 mod 64 = c" and "c = 0x2028 \<or> c = 0x2029"
  shows False
proof -
  have "s0 mod 32 < 32" "s1 mod 64 < 64" by auto
  then have "(s0 mod 32) * 64 + s1 mod 64 < 2048" by arith
  then show False using assms by auto
qed


lemma sep3:
  fixes s0 s1 s2 c :: nat
  assumes "0xE0 \<le> s0" "s0 \<le> 0xEF" "0x80 \<le> s1" "s1 \<le> 0xBF" "0x80 \<le> s2" "s2 \<le> 0xBF"
    and v: "(s0 mod 16) * 4096 + (s1 mod 64) * 64 + s2 mod 64 = c" and c: "c = 0x2028 \<or> c = 0x2029"
  shows "s0 = 0xE2 \<and> s1 = 0x80 \<and> s2 = 0xA0 + c mod 16"
proof -
  have m0: "s0 mod 16 = s0 - 224" using mod_range[of 14 16 s0] assms(1,2) by simp
  have m1: "s1 mod 64 = s1 - 128" using mod_range[of 2 64 s1] assms(3,4) by simp
  have m2: "s2 mod 64 = s2 - 128" using mod_range[of 2 64 s2] assms(5,6) by simp
  have cm: "c mod 16 = c - 8224" using c by auto
  have e: "(s0 - 224) * 4096 + (s1 - 128) * 64 + (s2 - 128) = c" using v unfolding m0 m1 m2 .
  have b1: "s1 - 128 \<le> 63" "s2 - 128 \<le> 63" "s0 - 224 \<le> 15" using assms(1-6) by auto
  have a2: "s0 - 224 = 2"
  proof (rule ccontr)
    assume "s0 - 224 \<noteq> 2"
    then have "s0 - 224 \<le> 1 \<or> 3 \<le> s0 - 224" by arith
    then show False using e b1 c by auto
  qed
  have a1: "s1 - 128 = 0"
  proof (rule ccontr)
    assume "s1 - 128 \<noteq> 0"
    then have "1 \<le> s1 - 128" by arith
    then show False using e a2 c by auto
  qed
  have r0: "s0 = 226" using a2 assms(1) by arith
  have r1: "s1 = 128" using a1 assms(3) by arith
  have "s2 - 128 = c - 8192" using e a2 a1 by simp
  then have r2: "s2 = c - 8064" using assms(5) c by arith
  from c show ?thesis
  proof
    assume "c = 0x2028"
    then show ?thesis using r0 r1 r2 by simp
  next
    assume "c = 0x2029"
    then show ?thesis using r0 r1 r2 by simp
  qed
qed

lemma sep4:
  fixes s0 s1 s2 s3 c :: nat
  assumes "0xF0 \<le> s0" "s0 \<le> 0xF4" "(if s0 = 0xF0 then 0x90 else 0x80) \<le> s1" "s1 \<le> 0xBF"
    and v: "(s0 mod 8) * 262144 + (s1 mod 64) * 4096 + (s2 mod 64) * 64 + s3 mod 64 = c"
    and c: "c = 0x2028 \<or> c = 0x2029"
  shows False
proof -
  have m0: "s0 mod 8 = s0 - 240" using mod_range[of 30 8 s0] assms(1,2) by simp
  have s1: "128 \<le> s1" using assms(3) by (simp split: if_splits)
  have m1: "s1 mod 64 = s1 - 128" using mod_range[of 2 64 s1] s1 assms(4) by simp
  have "65536 \<le> (s0 - 240) * 262144 + (s1 - 128) * 4096"
  proof (cases "s0 = 240")
    case True
    then have "144 \<le> s1" using assms(3) by simp
    then show ?thesis by arith
  next
    case False
    then have "1 \<le> s0 - 240" using assms(1) by arith
    then show ?thesis by arith
  qed
  then show False using v c unfolding m0 m1 by auto
qed



lemma DecodeRune_separator:
  assumes hi: "(0x80::nat) \<le> of_char b" and d: "utf8_DecodeRune (b # src) = (c, sz)"
    and c: "c = 0x2028 \<or> c = 0x2029"
  shows "sz = 3 \<and>
         take 3 (b # src) = [char_of (226::nat), char_of (128::nat), char_of (0xA0 + c mod 16)]"
proof -
  let ?s0 = "of_char b :: nat"
  have ne: "c \<noteq> RuneError" using c by (auto simp: RuneError_def)
  consider (two) "0xC2 \<le> ?s0" "?s0 \<le> 0xDF"
    | (three) "0xE0 \<le> ?s0" "?s0 \<le> 0xEF"
    | (four) "0xF0 \<le> ?s0" "?s0 \<le> 0xF4"
    | (bad) "?s0 < 0xC2 \<or> 0xF4 < ?s0"
    by arith
  then show ?thesis
  proof cases
    case two
    then obtain c1 r where "src = c1 # r" "c = (?s0 mod 32) * 64 + of_char c1 mod 64"
      using hi d ne by (auto simp: Let_def split: if_splits list.splits)
    then show ?thesis using sep2[of ?s0 "of_char c1" c] c by blast
  next
    case three
    then obtain c1 c2 r where src: "src = c1 # c2 # r"
      and r1: "accept_lo ?s0 \<le> of_char c1" "of_char c1 \<le> accept_hi ?s0" and r2: "cont c2"
      and v: "c = (?s0 mod 16) * 4096 + (of_char c1 mod 64) * 64 + of_char c2 mod 64"
      and sz: "sz = 3"
      using hi d ne by (auto simp: Let_def split: if_splits list.splits)
    have b1: "(0x80::nat) \<le> of_char c1" "(of_char c1 :: nat) \<le> 0xBF"
      using r1 by (auto simp: accept_lo_def accept_hi_def split: if_splits)
    have b2: "(0x80::nat) \<le> of_char c2" "(of_char c2 :: nat) \<le> 0xBF"
      using r2 by (auto simp: cont_def)
    have "?s0 = 0xE2 \<and> of_char c1 = (0x80::nat) \<and> of_char c2 = 0xA0 + c mod 16"
      using sep3[OF three b1 b2 v[symmetric] c] .
    then have e: "?s0 = 0xE2" "of_char c1 = (0x80::nat)" "of_char c2 = 0xA0 + c mod 16"
      by simp_all
    have "b = char_of (226::nat)" using e(1) by (metis char_of_char)
    moreover have "c1 = char_of (128::nat)" using e(2) by (metis char_of_char)
    moreover have "c2 = char_of (0xA0 + c mod 16)" using e(3) by (metis char_of_char)
    ultimately have "b = char_of (226::nat)" "c1 = char_of (128::nat)"
        "c2 = char_of (0xA0 + c mod 16)"
      by simp_all
    then show ?thesis using src sz by simp
  next
    case four
    then obtain c1 c2 c3 r where "src = c1 # c2 # c3 # r"
      and r1: "accept_lo ?s0 \<le> of_char c1" "of_char c1 \<le> accept_hi ?s0"
      and v: "c = (?s0 mod 8) * 262144 + (of_char c1 mod 64) * 4096
                     + (of_char c2 mod 64) * 64 + of_char c3 mod 64"
      using hi d ne by (auto simp: Let_def split: if_splits list.splits)
    have "(if ?s0 = 0xF0 then 0x90 else 0x80) \<le> (of_char c1 :: nat)" "(of_char c1 :: nat) \<le> 0xBF"
      using r1 four by (auto simp: accept_lo_def accept_hi_def split: if_splits)
    then show ?thesis using sep4[OF four _ _ v[symmetric] c] by blast
  next
    case bad
    then show ?thesis using hi d ne by (auto simp: Let_def split: if_splits)
  qed
qed


lemma unquote_separator:
  assumes "c = 0x2028 \<or> c = 0x2029"
  shows "unquote (bslash # ''u202'' @ hex (c mod 16) # X) =
         prepend [char_of (226::nat), char_of (128::nat), char_of (0xA0 + c mod 16)] (unquote X)"
  using assms
  by (auto simp: hex_def hex4_def hexval_def utf8_encode_def bslash_def dquote_def)

lemma unquote_loop:
  "utf8_ValidString t \<Longrightarrow> unquote (appendString_loop t @ dquote # rest) = Some (t, rest)"
proof (induction t rule: appendString_loop.induct)
  case 1
  show ?case by simp
next
  case (2 b src)
  show ?case
  proof (cases "(of_char b :: nat) < 0x80")
    case True
    then have IH: "unquote (appendString_loop src @ dquote # rest) = Some (src, rest)"
      using "2.IH"(1) "2.prems" by simp
    show ?thesis
    proof (cases "htmlSafe b")
      case T: True
      then have "b \<noteq> dquote" "b \<noteq> bslash" "(0x20::nat) \<le> of_char b"
        by (auto simp: htmlSafe_def)
      then have "unquote (b # appendString_loop src @ dquote # rest)
                   = prepend [b] (unquote (appendString_loop src @ dquote # rest))"
        by (rule unquote_plain)
      then show ?thesis using True T IH by simp
    next
      case F: False
      show ?thesis using True F IH unquote_escape[OF True F] by simp
    qed
  next
    case False
    obtain c sz where d: "utf8_DecodeRune (b # src) = (c, sz)"
      by (cases "utf8_DecodeRune (b # src)")
    from False have hi: "(0x80::nat) \<le> of_char b" by simp
    have ne: "\<not> (c = RuneError \<and> sz = 1)" and v: "utf8_ValidString (drop (sz - 1) src)"
      using "2.prems" False d by auto
    have sz: "2 \<le> sz" "sz \<le> length (b # src)"
      and high: "\<forall>x \<in> set (take sz (b # src)). (0x80::nat) \<le> of_char x"
      using DecodeRune_cases[OF hi d] ne by auto
    have whole: "take sz (b # src) @ drop (sz - 1) src = b # src"
      using sz by (cases sz) auto
    show ?thesis
    proof (cases "c = 0x2028 \<or> c = 0x2029")
      case True
      have IH: "unquote (appendString_loop (drop (sz - 1) src) @ dquote # rest)
                  = Some (drop (sz - 1) src, rest)"
        using "2.IH"(3)[OF False d[symmetric] ne True v] .
      have t3: "sz = 3"
        "take 3 (b # src) = [char_of (226::nat), char_of (128::nat), char_of (0xA0 + c mod 16)]"
        using DecodeRune_separator[OF hi d True] by auto
      have A: "appendString_loop (b # src) =
              bslash # ''u202'' @ hex (c mod 16) # appendString_loop (drop (sz - 1) src)"
        using False d ne True by simp
      have B: "unquote (bslash # ''u202'' @ hex (c mod 16) #
                 (appendString_loop (drop (sz - 1) src) @ dquote # rest)) =
               prepend (take 3 (b # src)) (Some (drop (sz - 1) src, rest))"
        unfolding unquote_separator[OF True] IH t3(2) ..
      have "unquote (appendString_loop (b # src) @ dquote # rest) =
               prepend (take 3 (b # src)) (Some (drop (sz - 1) src, rest))"
        unfolding A using B by simp
      then show ?thesis using whole unfolding t3(1) prepend_Some by simp
    next
      case F: False
      have IH: "unquote (appendString_loop (drop (sz - 1) src) @ dquote # rest)
                  = Some (drop (sz - 1) src, rest)"
        using "2.IH"(4)[OF False d[symmetric] ne F v] .
      have A: "appendString_loop (b # src) =
              take sz (b # src) @ appendString_loop (drop (sz - 1) src)"
        using False d ne F by simp
      have B: "unquote (take sz (b # src) @
                 (appendString_loop (drop (sz - 1) src) @ dquote # rest)) =
               prepend (take sz (b # src)) (Some (drop (sz - 1) src, rest))"
        unfolding unquote_high[OF high] IH ..
      have "unquote (appendString_loop (b # src) @ dquote # rest) =
               prepend (take sz (b # src)) (Some (drop (sz - 1) src, rest))"
        unfolding A using B by simp
      then show ?thesis using whole unfolding prepend_Some by simp
    qed
  qed
qed


lemma hexval_brace: "hexval CHR ''{'' = None" "hexval dquote = None"
  by (simp_all add: hexval_def dquote_def)

lemma hex4_none:
  "hexval a = None \<or> hexval b = None \<or> hexval c = None \<or> hexval d = None \<Longrightarrow>
   hex4 a b c d = None"
  by (auto simp: hex4_def split: option.splits)

text \<open>A string literal that runs into the start of a record ends inside it or before it.\<close>

lemma unquote_garbage:
  "unquote (Q @ CHR ''{'' # dquote # Y) = Some (t, rest) \<Longrightarrow> length Y \<le> length rest"
proof (induction Q arbitrary: t rule: length_induct)
  case (1 Q)
  note IH = "1.IH"[rule_format]
  note run = "1.prems"
  have brace: "CHR ''{'' \<noteq> dquote" "CHR ''{'' \<noteq> bslash" "(0x20::nat) \<le> of_char CHR ''{''"
    "CHR ''{'' \<noteq> CHR ''u''" "unescape CHR ''{'' = None"
    by (simp_all add: dquote_def bslash_def unescape_def)
  show ?case
  proof (cases Q)
    case Nil
    then show ?thesis using run brace by (simp add: prepend_def)
  next
    case (Cons q Q1)
    show ?thesis
    proof (cases "q = dquote")
      case True
      then show ?thesis using run Cons by auto
    next
      case nd: False
      show ?thesis
      proof (cases "q = bslash")
        case nb: False
        show ?thesis
        proof (cases "(of_char q :: nat) < 0x20")
          case True
          then show ?thesis using run Cons nd nb by simp
        next
          case False
          then have "unquote (Q @ CHR ''{'' # dquote # Y)
                      = prepend [q] (unquote (Q1 @ CHR ''{'' # dquote # Y))"
            using Cons nd nb by simp
          then obtain t' where "unquote (Q1 @ CHR ''{'' # dquote # Y) = Some (t', rest)"
            using run prepend_eq_Some by metis
          then show ?thesis using IH[of Q1 t'] Cons by simp
        qed
      next
        case True
        show ?thesis
        proof (cases Q1)
          case Nil
          then show ?thesis using run Cons True nd brace by simp
        next
          case e: (Cons e Q2)
          show ?thesis
          proof (cases "e = CHR ''u''")
            case False
            then have "unquote (Q @ CHR ''{'' # dquote # Y)
                = (case unescape e of None \<Rightarrow> None
                   | Some b \<Rightarrow> prepend [b] (unquote (Q2 @ CHR ''{'' # dquote # Y)))"
              using Cons e True nd by simp
            then obtain t' where "unquote (Q2 @ CHR ''{'' # dquote # Y) = Some (t', rest)"
              using run prepend_eq_Some by (cases "unescape e") (auto, metis)
            then show ?thesis using IH[of Q2 t'] Cons e by simp
          next
            case u: True
            consider (short) "length Q2 < 4" | (long) h1 h2 h3 h4 Q3 where "Q2 = h1 # h2 # h3 # h4 # Q3"
              by (cases Q2; cases "tl Q2"; cases "tl (tl Q2)"; cases "tl (tl (tl Q2))") auto
            then show ?thesis
            proof cases
              case short
              then have "unquote (Q @ CHR ''{'' # dquote # Y) = None"
                using Cons e True nd u hexval_brace
                by (cases Q2; cases "tl Q2"; cases "tl (tl Q2)"; cases "tl (tl (tl Q2))")
                   (auto simp: hex4_none split: list.splits)
              then show ?thesis using run by simp
            next
              case long
              then have "unquote (Q @ CHR ''{'' # dquote # Y)
                = (case hex4 h1 h2 h3 h4 of None \<Rightarrow> None
                   | Some cp \<Rightarrow> (case utf8_encode cp of None \<Rightarrow> None
                        | Some p \<Rightarrow> prepend p (unquote (Q3 @ CHR ''{'' # dquote # Y))))"
                using Cons e True nd u by simp
              then obtain t' where "unquote (Q3 @ CHR ''{'' # dquote # Y) = Some (t', rest)"
                using run prepend_eq_Some
                by (cases "hex4 h1 h2 h3 h4"; cases "utf8_encode (the (hex4 h1 h2 h3 h4))")
                   (auto, metis)
              then show ?thesis using IH[of Q3 t'] Cons e long by simp
            qed
          qed
        qed
      qed
    qed
  qed
qed


lemma json_bytes_shape:
  "json_bytes p = (header @ [dquote]) @ appendString_loop (Text p) @ dquote # ''}''"
  by (simp add: json_bytes_def appendString_def)

lemma header_shape: "header @ [dquote] = CHR ''{'' # dquote # ''text'' @ [dquote, CHR '':'', dquote]"
  by (simp add: header_def)

lemma json_bytes_no_newline: "newline \<notin> set (json_bytes p)"
  using loop_no_newline[of "Text p"]
  by (auto simp: json_bytes_def header_def appendString_def newline_def dquote_def)

lemma parse_record_json:
  "utf8_ValidString (Text p) \<Longrightarrow> parse_record (json_bytes p) = Some p"
  using unquote_loop[of "Text p" "''}''"]
  by (simp add: parse_record_def json_bytes_shape Let_def)

lemma header_nth: "0 < k \<Longrightarrow> k < 9 \<Longrightarrow> (header @ [dquote]) ! k \<noteq> CHR ''{''"
proof -
  assume "0 < k" "k < 9"
  then have "k \<in> {1,2,3,4,5,6,7,8}" by (simp only: insert_iff empty_iff) arith
  then show ?thesis by (auto simp: header_def dquote_def)
qed

lemma parse_record_garbage:
  assumes "Q \<noteq> []"
  shows "parse_record (Q @ json_bytes p) = None"
proof (cases "prefix (header @ [dquote]) (Q @ json_bytes p)")
  case False
  then show ?thesis by (simp add: parse_record_def Let_def)
next
  case True
  let ?H = "header @ [dquote]"
  let ?B = "appendString_loop (Text p) @ dquote # ''}''"
  have len: "length ?H = 9" by (simp add: header_def)
  have shape: "Q @ json_bytes p = Q @ ?H @ ?B" by (simp add: json_bytes_shape)
  have long: "9 \<le> length Q"
  proof (rule ccontr)
    assume "\<not> 9 \<le> length Q"
    then have k: "0 < length Q" "length Q < 9" using assms by auto
    have "(Q @ json_bytes p) ! length Q = CHR ''{''"
      by (simp add: shape nth_append header_def)
    moreover have "(Q @ json_bytes p) ! length Q = ?H ! length Q"
      using True k len by (metis prefix_def nth_append)
    ultimately show False using header_nth[OF k] by simp
  qed
  then have "prefix ?H Q" using True len
    by (metis prefix_length_prefix prefixI)
  then obtain Q2 where Q: "Q = ?H @ Q2" by (auto simp: prefix_def)
  have d: "drop (length ?H) (Q @ json_bytes p)
             = Q2 @ CHR ''{'' # dquote # (''text'' @ [dquote, CHR '':'', dquote] @ ?B)"
  proof -
    have "Q @ json_bytes p = ?H @ (Q2 @ ?H @ ?B)"
      using Q json_bytes_shape[of p] by simp
    then have "drop (length ?H) (Q @ json_bytes p) = Q2 @ ?H @ ?B"
      by (metis append_eq_conv_conj)
    then show ?thesis by (simp add: header_def)
  qed
  show ?thesis
  proof (cases "unquote (drop (length ?H) (Q @ json_bytes p))")
    case None
    then show ?thesis by (simp add: parse_record_def Let_def)
  next
    case (Some a)
    obtain t rest where a: "a = (t, rest)" by (cases a)
    have "length (''text'' @ [dquote, CHR '':'', dquote] @ ?B) \<le> length rest"
      using unquote_garbage Some a d by metis
    then have "rest \<noteq> ''}''" by auto
    then show ?thesis using Some a by (simp add: parse_record_def Let_def)
  qed
qed

section \<open>Lines\<close>

lemma split_lines_plain: "newline \<notin> set b \<Longrightarrow> split_lines acc b = []"
  by (induction b arbitrary: acc) auto

lemma pending_acc_plain: "newline \<notin> set b \<Longrightarrow> pending_acc acc b = rev acc @ b"
  by (induction b arbitrary: acc) auto

lemma split_lines_append:
  "newline \<notin> set b \<Longrightarrow> split_lines acc (C @ b) = split_lines acc C"
  by (induction C arbitrary: acc) (auto simp: split_lines_plain)

lemma pending_acc_append:
  "newline \<notin> set b \<Longrightarrow> pending_acc acc (C @ b) = pending_acc acc C @ b"
  by (induction C arbitrary: acc) (auto simp: pending_acc_plain)

lemma split_lines_newline:
  "split_lines acc (C @ [newline]) = split_lines acc C @ [pending_acc acc C]"
  by (induction C arbitrary: acc) auto

lemma pending_acc_newline: "pending_acc acc (C @ [newline]) = []"
  by (induction C arbitrary: acc) auto

lemma file_lines_append: "newline \<notin> set b \<Longrightarrow> file_lines (C @ b) = file_lines C"
  by (simp add: file_lines_def split_lines_append)

lemma pending_append: "newline \<notin> set b \<Longrightarrow> pending (C @ b) = pending C @ b"
  by (simp add: pending_def pending_acc_append)

lemma file_lines_line:
  "newline \<notin> set d \<Longrightarrow> file_lines (C @ d @ [newline]) = file_lines C @ [pending C @ d]"
  using split_lines_newline[of "[]" "C @ d"]
  by (simp add: file_lines_def pending_def split_lines_append pending_acc_append)

lemma pending_line: "pending (C @ d @ [newline]) = []"
  using pending_acc_newline[of "[]" "C @ d"] by (simp add: pending_def)

lemma read_records_append: "newline \<notin> set b \<Longrightarrow> read_records (C @ b) = read_records C"
  by (simp add: read_records_def file_lines_append)

lemma read_records_line:
  "newline \<notin> set d \<Longrightarrow>
   read_records (C @ d @ [newline]) =
     read_records C @ (case parse_record (pending C @ d) of None \<Rightarrow> [] | Some p \<Rightarrow> [p])"
  by (simp add: read_records_def file_lines_line List.map_filter_def split: option.splits)

lemma contents_lines_acc:
  "rev acc @ c = concat (map (\<lambda>l. l @ [newline]) (split_lines acc c)) @ pending_acc acc c"
proof (induction c arbitrary: acc)
  case Nil
  show ?case by simp
next
  case (Cons a c)
  show ?case
  proof (cases "a = newline")
    case True
    then show ?thesis using Cons[of "[]"] by simp
  next
    case False
    then show ?thesis using Cons[of "a # acc"] by simp
  qed
qed

lemma contents_lines:
  "c = concat (map (\<lambda>l. l @ [newline]) (file_lines c)) @ pending c"
  using contents_lines_acc[of "[]" c] by (simp add: file_lines_def pending_def)


section \<open>One append\<close>

lemma writePostToFile_effect:
  assumes ser: "serializer M" and w: "writePostToFile M p f = (r, f')"
  shows "(r = None \<and> contents f' = contents f @ json_bytes p @ [newline])
       \<or> (r \<noteq> None \<and> (\<exists>x. contents f' = contents f @ x \<and> newline \<notin> set x))"
proof (cases "M p")
  case (Inl err)
  then show ?thesis using w by (auto simp: writePostToFile_def)
next
  case (Inr d)
  then have d: "d = json_bytes p" using ser by (simp add: serializer_def)
  have nn: "newline \<notin> set (json_bytes p)" by (rule json_bytes_no_newline)
  have tk: "newline \<notin> set (take k (json_bytes p))" for k
    using nn by (meson in_set_takeD)
  show ?thesis
    using w Inr d nn tk
    by (auto simp: writePostToFile_def file_Write_def file_WriteString_def
          split: list.splits write_result.splits)
qed

lemma writePostToFile_ok:
  assumes ok: "all_ok f" and w: "writePostToFile json_Marshal p f = (r, f')"
  shows "r = None \<and> contents f' = contents f @ json_bytes p @ [newline] \<and> all_ok f'"
  using ok w
  by (auto simp: writePostToFile_def file_Write_def file_WriteString_def json_Marshal_def
        all_ok_def split: list.splits write_result.splits)

section \<open>One item\<close>

lemma processPost_item_step: "processPost M c s = (r, s') \<Longrightarrow> item_step M c s s'"
  using processPost_new[of s c M] processPost_again[of s c M]
  by (cases "index (postSet s) c") (auto simp: item_step_def)

lemma main_go_item_step: "item_step M c s (main_go_item M c s)"
  using main_go_item_new[of s c M] main_go_item_again[of s c M]
  by (cases "index (postSet s) c") (auto simp: item_step_def)

lemma item_step_frame:
  "item_step M c s s' \<Longrightarrow> postSet s'' = postSet s' \<Longrightarrow> outfile s'' = outfile s' \<Longrightarrow>
   item_step M c s s''"
  by (simp add: item_step_def)

text \<open>What one item does to the records of the file.\<close>

lemma item_step_texts:
  assumes ser: "serializer M" and v: "utf8_ValidString c" and st: "item_step M c s s'"
  shows "(\<forall>k. index (postSet s') k \<longleftrightarrow> k = c \<or> index (postSet s) k) \<and>
         (texts s' = texts s \<or> (texts s' = texts s @ [c] \<and> \<not> index (postSet s) c))"
proof (cases "index (postSet s) c")
  case True
  then show ?thesis using st by (auto simp: item_step_def texts_def)
next
  case False
  let ?p = "\<lparr>Text = c\<rparr>"
  obtain r f' where w: "writePostToFile M ?p (outfile s) = (r, f')"
    by (cases "writePostToFile M ?p (outfile s)")
  have ps: "postSet s' = fmupd c True (postSet s)" and f: "outfile s' = f'"
    using st False w by (auto simp: item_step_def)
  have idx: "\<forall>k. index (postSet s') k \<longleftrightarrow> k = c \<or> index (postSet s) k"
    using ps by (simp add: index_fmupd)
  let ?C = "contents (outfile s)"
  from writePostToFile_effect[OF ser w]
  have "texts s' = texts s \<or> texts s' = texts s @ [c]"
  proof
    assume "r = None \<and> contents f' = ?C @ json_bytes ?p @ [newline]"
    then have c': "contents (outfile s') = ?C @ json_bytes ?p @ [newline]" using f by simp
    have pr: "parse_record (pending ?C @ json_bytes ?p) = (if pending ?C = [] then Some ?p else None)"
      using parse_record_json[of ?p] parse_record_garbage[of "pending ?C" ?p] v by simp
    show ?thesis
      unfolding texts_def c' read_records_line[OF json_bytes_no_newline] pr
      by (cases "pending ?C = []") simp_all
  next
    assume "r \<noteq> None \<and> (\<exists>x. contents f' = ?C @ x \<and> newline \<notin> set x)"
    then obtain x where "contents (outfile s') = ?C @ x" "newline \<notin> set x" using f by auto
    then show ?thesis by (simp add: texts_def read_records_append)
  qed
  then show ?thesis using idx False by auto
qed

lemma item_step_consistent:
  assumes ser: "serializer M" and v: "utf8_ValidString c" and st: "item_step M c s s'"
    and con: "consistent s"
  shows "consistent s'"
  using item_step_texts[OF ser v st] con
  by (auto simp: consistent_def list_all_iff)

lemma item_step_lost:
  assumes ser: "serializer M" and v: "utf8_ValidString c" and st: "item_step M c s s'"
    and l: "lost x s"
  shows "lost x s'"
  using item_step_texts[OF ser v st] l item_step_consistent[OF ser v st]
  by (auto simp: lost_def)

section \<open>From one item to the loop\<close>

lemma range_processPost_inv:
  fixes P :: "state \<Rightarrow> bool"
  assumes step: "\<And>c s s'. c \<in> set l \<Longrightarrow> P s \<Longrightarrow> item_step M c s s' \<Longrightarrow> P s'"
    and init: "P s"
  shows "P (range_processPost M l s)"
  using step init
proof (induction l arbitrary: s)
  case Nil
  then show ?case by simp
next
  case (Cons c l)
  obtain r s1 where p: "processPost M c s = (r, s1)" by (cases "processPost M c s")
  have st: "item_step M c s s1" using p by (rule processPost_item_step)
  have tail: "\<And>c s s'. c \<in> set l \<Longrightarrow> P s \<Longrightarrow> item_step M c s s' \<Longrightarrow> P s'"
    using Cons.prems(1) by auto
  show ?case
  proof (cases r)
    case None
    have "P s1" using Cons.prems(1)[of c s s1] Cons.prems(2) st by simp
    then show ?thesis using Cons.IH[OF tail] p None by simp
  next
    case (Some err)
    have "item_step M c s (log_add (PrintlnErr [] err) s1)"
      using st by (rule item_step_frame) (simp_all add: log_add_def)
    then have "P (log_add (PrintlnErr [] err) s1)"
      using Cons.prems(1)[of c s] Cons.prems(2) by simp
    then show ?thesis using Cons.IH[OF tail] p Some by simp
  qed
qed

lemma main_go_range_inv:
  fixes P :: "state \<Rightarrow> bool"
  assumes step: "\<And>c s s'. c \<in> set l \<Longrightarrow> P s \<Longrightarrow> item_step M c s s' \<Longrightarrow> P s'"
    and init: "P s"
  shows "P (main_go_range M l s)"
  using step init
proof (induction l arbitrary: s)
  case Nil
  then show ?case by simp
next
  case (Cons c l)
  have "P (main_go_item M c s)"
    using Cons.prems(1)[of c s] Cons.prems(2) main_go_item_step by simp
  moreover have "\<And>c s s'. c \<in> set l \<Longrightarrow> P s \<Longrightarrow> item_step M c s s' \<Longrightarrow> P s'"
    using Cons.prems(1) by auto
  ultimately show ?case using Cons.IH by simp
qed

lemma scrape_cycle_inv:
  fixes P :: "state \<Rightarrow> bool"
  assumes step: "\<And>c s s'. c \<in> set (items cy) \<Longrightarrow> P s \<Longrightarrow> item_step M c s s' \<Longrightarrow> P s'"
    and frame: "\<And>s s'. P s \<Longrightarrow> postSet s' = postSet s \<Longrightarrow> outfile s' = outfile s \<Longrightarrow> P s'"
    and init: "P s"
  shows "P (scrape_cycle M endTime cy s)"
proof -
  obtain r s1 where c: "collectPosts M cy s = (r, s1)" by (cases "collectPosts M cy s")
  have "P s1"
  proof (cases "capture cy")
    case (Inl err)
    then show ?thesis using c init by (simp add: collectPosts_def)
  next
    case (Inr l)
    then have "s1 = range_processPost M l s" using c by (simp add: collectPosts_def)
    moreover have "items cy = l" using Inr by (simp add: items_def)
    ultimately show ?thesis using range_processPost_inv[of l P M s, OF step init] by simp
  qed
  then show ?thesis
    using c by (cases r) (auto intro!: frame[of s1] simp: scrape_cycle_def report_def log_add_def Let_def)
qed

lemma scrape_loop_inv:
  fixes P :: "state \<Rightarrow> bool"
  assumes step: "\<And>c s s'. c \<in> set (snapshots cs) \<Longrightarrow> P s \<Longrightarrow> item_step M c s s' \<Longrightarrow> P s'"
    and frame: "\<And>s s'. P s \<Longrightarrow> postSet s' = postSet s \<Longrightarrow> outfile s' = outfile s \<Longrightarrow> P s'"
    and init: "P s"
    and run: "scrape_loop M endTime cs s = Some s'"
  shows "P s'"
  using step init run
proof (induction cs arbitrary: s)
  case Nil
  then show ?case by (simp split: if_splits)
next
  case (Cons cy cs)
  show ?case
  proof (cases "now s < endTime")
    case False
    then show ?thesis using Cons.prems by simp
  next
    case True
    have "P (scrape_cycle M endTime cy s)"
    proof (rule scrape_cycle_inv[where P = P])
      fix c and s s' :: state
      assume "c \<in> set (items cy)" "P s" "item_step M c s s'"
      then show "P s'" using Cons.prems(1)[of c s s'] by (simp add: snapshots_def)
    next
      fix s s' :: state
      assume "P s" "postSet s' = postSet s" "outfile s' = outfile s"
      then show "P s'" by (rule frame)
    next
      show "P s" by (rule Cons.prems(2))
    qed
    moreover have "\<And>c s s'. c \<in> set (snapshots cs) \<Longrightarrow> P s \<Longrightarrow> item_step M c s s' \<Longrightarrow> P s'"
    proof -
      fix c and s s' :: state
      assume "c \<in> set (snapshots cs)" "P s" "item_step M c s s'"
      then show "P s'" using Cons.prems(1)[of c s s'] by (simp add: snapshots_def)
    qed
    ultimately show ?thesis using Cons.IH[of "scrape_cycle M endTime cy s"] Cons.prems(3) True
      by simp
  qed
qed

lemma main_go_loop_inv:
  fixes P :: "state \<Rightarrow> bool"
  assumes step: "\<And>c s s'. c \<in> set (snapshots cs) \<Longrightarrow> P s \<Longrightarrow> item_step M c s s' \<Longrightarrow> P s'"
    and frame: "\<And>s s'. P s \<Longrightarrow> postSet s' = postSet s \<Longrightarrow> outfile s' = outfile s \<Longrightarrow> P s'"
    and init: "P s"
    and run: "main_go_loop M endTime cs s = Some r"
  shows "P (final r)"
  using step init run
proof (induction cs arbitrary: s)
  case Nil
  then show ?case by (auto split: if_splits)
next
  case (Cons cy cs)
  show ?case
  proof (cases "now s < endTime")
    case False
    then show ?thesis using Cons.prems by auto
  next
    case True
    show ?thesis
    proof (cases "capture cy")
      case (Inl err)
      then have "r = Fatal err (log_add (PrintlnErr [] err) (s\<lparr>now := now s + busy cy\<rparr>))"
        using Cons.prems(3) True by (simp add: main_go_cycle_def)
      then show ?thesis using frame[OF Cons.prems(2)] by (simp add: log_add_def)
    next
      case (Inr l)
      let ?s1 = "main_go_range M l s"
      have "items cy = l" using Inr by (simp add: items_def)
      then have "P ?s1"
      proof (intro main_go_range_inv[where P = P])
        fix c and s s' :: state
        assume "items cy = l" "c \<in> set l" "P s" "item_step M c s s'"
        then show "P s'" using Cons.prems(1)[of c s s'] by (auto simp: snapshots_def)
      next
        show "P s" by (rule Cons.prems(2))
      qed
      then have "P ((report endTime (busy cy) ?s1)\<lparr>now := now (report endTime (busy cy) ?s1) + idle cy\<rparr>)"
        by (rule frame) (simp_all add: report_def log_add_def Let_def)
    moreover have "\<And>c s s'. c \<in> set (snapshots cs) \<Longrightarrow> P s \<Longrightarrow> item_step M c s s' \<Longrightarrow> P s'"
    proof -
      fix c and s s' :: state
      assume "c \<in> set (snapshots cs)" "P s" "item_step M c s s'"
      then show "P s'" using Cons.prems(1)[of c s s'] by (simp add: snapshots_def)
    qed
      ultimately show ?thesis
        using Cons.IH Cons.prems(3) True Inr by (simp add: main_go_cycle_def Let_def)
    qed
  qed
qed

section \<open>Both loops handle the snapshots of the cycles they run, item by item\<close>

lemma item_step_data: "item_step M c s s' \<longleftrightarrow> data s' = item_data M c (data s)"
  by (auto simp: item_step_def item_data_def data_def)

lemma absorb_Nil [simp]: "absorb M [] d = d"
  by (simp add: absorb_def)

lemma absorb_Cons [simp]: "absorb M (c # l) d = absorb M l (item_data M c d)"
  by (simp add: absorb_def)

lemma absorb_append: "absorb M (l1 @ l2) d = absorb M l2 (absorb M l1 d)"
  by (simp add: absorb_def)

lemma data_log_add [simp]: "data (log_add x s) = data s"
  by (simp add: data_def log_add_def)

lemma data_report [simp]: "data (report endTime d s) = data s"
  by (simp add: data_def report_def log_add_def Let_def)

lemma data_now [simp]: "data (s\<lparr>now := t\<rparr>) = data s"
  by (simp add: data_def)

lemma range_processPost_data: "data (range_processPost M l s) = absorb M l (data s)"
proof (induction l arbitrary: s)
  case Nil
  show ?case by simp
next
  case (Cons c l)
  obtain r s1 where p: "processPost M c s = (r, s1)" by (cases "processPost M c s")
  have "data s1 = item_data M c (data s)"
    using processPost_item_step[OF p] by (simp add: item_step_data)
  then show ?case using p Cons.IH by (cases r) simp_all
qed

lemma main_go_range_data: "data (main_go_range M l s) = absorb M l (data s)"
proof (induction l arbitrary: s)
  case Nil
  show ?case by simp
next
  case (Cons c l)
  have "data (main_go_item M c s) = item_data M c (data s)"
    using main_go_item_step[of M c s] by (simp add: item_step_data)
  then show ?case using Cons.IH by simp
qed

lemma scrape_cycle_data: "data (scrape_cycle M endTime cy s) = absorb M (items cy) (data s)"
  by (cases "capture cy")
     (simp_all add: scrape_cycle_def collectPosts_def items_def range_processPost_data Let_def)

lemma main_go_cycle_data:
  "main_go_cycle M endTime cy s = Inr s' \<Longrightarrow> data s' = absorb M (items cy) (data s)"
  by (cases "capture cy")
     (auto simp: main_go_cycle_def items_def main_go_range_data Let_def)

lemma scrape_loop_data:
  "scrape_loop M endTime cs s = Some s' \<Longrightarrow>
   data s' = absorb M (snapshots (executed endTime (now s) cs)) (data s)"
proof (induction cs arbitrary: s)
  case Nil
  then show ?case by (simp add: snapshots_def split: if_splits)
next
  case (Cons cy cs)
  show ?case
  proof (cases "now s < endTime")
    case False
    then show ?thesis using Cons.prems by (simp add: snapshots_def)
  next
    case True
    let ?s1 = "scrape_cycle M endTime cy s"
    have "data s' = absorb M (snapshots (executed endTime (now ?s1) cs)) (data ?s1)"
      using Cons.IH[of ?s1] Cons.prems True by simp
    then show ?thesis
      using True by (simp add: now_scrape_cycle scrape_cycle_data snapshots_def absorb_append)
  qed
qed

lemma main_go_loop_data:
  "main_go_loop M endTime cs s = Some (Returned s') \<Longrightarrow>
   data s' = absorb M (snapshots (executed endTime (now s) cs)) (data s)"
proof (induction cs arbitrary: s)
  case Nil
  then show ?case by (simp add: snapshots_def split: if_splits)
next
  case (Cons cy cs)
  show ?case
  proof (cases "now s < endTime")
    case False
    then show ?thesis using Cons.prems by (simp add: snapshots_def)
  next
    case True
    then obtain s1 where c1: "main_go_cycle M endTime cy s = Inr s1"
      and run: "main_go_loop M endTime cs s1 = Some (Returned s')"
      using Cons.prems by (auto split: sum.splits)
    have "data s' = absorb M (snapshots (executed endTime (now s1) cs)) (data s1)"
      using Cons.IH[OF run] .
    then show ?thesis
      using True now_main_go_cycle[OF c1] main_go_cycle_data[OF c1]
      by (simp add: snapshots_def absorb_append)
  qed
qed

section \<open>Runs in which no append fails\<close>

lemma first_seen_set: "set (first_seen l) = set l"
  by (induction l) auto

lemma first_seen_distinct: "distinct (first_seen l)"
  by (induction l) (auto simp: first_seen_set)

lemma fresh_of_first_seen: "fresh_of S l = filter (\<lambda>t. t \<notin> S) (first_seen l)"
proof (induction l arbitrary: S)
  case Nil
  show ?case by simp
next
  case (Cons t l)
  show ?case
  proof (cases "t \<in> S")
    case True
    have "filter (\<lambda>t. t \<notin> S) (filter (\<lambda>y. y \<noteq> t) (first_seen l)) = filter (\<lambda>t. t \<notin> S) (first_seen l)"
      using True by (auto intro: filter_cong)
    then show ?thesis using True Cons.IH[of S] by simp
  next
    case False
    have "filter (\<lambda>x. x \<notin> insert t S) (first_seen l)
            = filter (\<lambda>t. t \<notin> S) (filter (\<lambda>y. y \<noteq> t) (first_seen l))"
      by (auto intro: filter_cong)
    then show ?thesis using False Cons.IH[of "insert t S"] by simp
  qed
qed

lemma fresh_of_empty: "fresh_of {} l = first_seen l"
  by (simp add: fresh_of_first_seen)

lemma absorb_ok:
  assumes "all_ok f" and "absorb json_Marshal l (m, f) = (m', f')"
  shows "all_ok f' \<and>
         contents f' = contents f @ concat (map line (fresh_of {k. index m k} l)) \<and>
         {k. index m' k} = {k. index m k} \<union> set l \<and>
         fmdom' m' = fmdom' m \<union> set l"
  using assms
proof (induction l arbitrary: m f)
  case Nil
  then show ?case by simp
next
  case (Cons c l)
  show ?case
  proof (cases "index m c")
    case True
    then have "item_data json_Marshal c (m, f) = (m, f)" by (simp add: item_data_def)
    moreover have "c \<in> fmdom' m"
      using True by (auto simp: index_def intro: fmdom'I split: option.splits)
    ultimately show ?thesis using Cons True by auto
  next
    case False
    obtain r f1 where w: "writePostToFile json_Marshal \<lparr>Text = c\<rparr> f = (r, f1)"
      by (cases "writePostToFile json_Marshal \<lparr>Text = c\<rparr> f")
    from writePostToFile_ok[OF Cons.prems(1) w]
    have ok1: "all_ok f1" and c1: "contents f1 = contents f @ line c"
      by (simp_all add: line_def)
    have step: "item_data json_Marshal c (m, f) = (fmupd c True m, f1)"
      using False w by (simp add: item_data_def)
    have run: "absorb json_Marshal l (fmupd c True m, f1) = (m', f')"
      using Cons.prems(2) step by simp
    have idx: "{k. index (fmupd c True m) k} = insert c {k. index m k}"
      by (auto simp: index_fmupd)
    show ?thesis using Cons.IH[OF ok1 run] c1 idx False by auto
  qed
qed

lemma first_index_Cons:
  "first_index (x # xs) y = (if y = x then 0 else Suc (first_index xs y))"
  by (simp add: first_index_def)

lemma first_seen_sorted:
  "sorted_wrt (\<lambda>a b. first_index l a < first_index l b) (first_seen l)"
proof (induction l)
  case Nil
  show ?case by simp
next
  case (Cons x xs)
  have "sorted_wrt (\<lambda>a b. first_index xs a < first_index xs b)
          (filter (\<lambda>y. y \<noteq> x) (first_seen xs))"
    using Cons.IH by (rule sorted_wrt_filter)
  then have "sorted_wrt (\<lambda>a b. first_index (x # xs) a < first_index (x # xs) b)
          (filter (\<lambda>y. y \<noteq> x) (first_seen xs))"
    by (rule sorted_wrt_mono_rel[rotated]) (auto simp: first_index_Cons)
  then show ?case by (auto simp: first_index_Cons)
qed

lemma line_no_newline: "line t = json_bytes \<lparr>Text = t\<rparr> @ [newline]"
  by (simp add: line_def)

lemma file_lines_records:
  "file_lines (concat (map line l)) = map (\<lambda>t. json_bytes \<lparr>Text = t\<rparr>) l \<and>
   pending (concat (map line l)) = []"
proof (induction l rule: rev_induct)
  case Nil
  show ?case by (simp add: file_lines_def pending_def)
next
  case (snoc t l)
  have "file_lines (concat (map line l) @ json_bytes \<lparr>Text = t\<rparr> @ [newline])
          = file_lines (concat (map line l)) @ [pending (concat (map line l)) @ json_bytes \<lparr>Text = t\<rparr>]"
    by (rule file_lines_line) (rule json_bytes_no_newline)
  then show ?case using snoc pending_line[of "concat (map line l)" "json_bytes \<lparr>Text = t\<rparr>"]
    by (simp add: line_def[of t])
qed

lemma read_records_valid:
  "list_all utf8_ValidString l \<Longrightarrow>
   read_records (concat (map line l)) = map (\<lambda>t. \<lparr>Text = t\<rparr>) l"
proof -
  assume v: "list_all utf8_ValidString l"
  have "List.map_filter parse_record (map (\<lambda>t. json_bytes \<lparr>Text = t\<rparr>) l) = map (\<lambda>t. \<lparr>Text = t\<rparr>) l"
    using v by (induction l) (simp_all add: List.map_filter_simps parse_record_json)
  then show ?thesis by (simp add: read_records_def file_lines_records)
qed

lemma entry_data: "(postSet (entry t f), outfile (entry t f)) = (fmempty, f)" "now (entry t f) = t"
  by (simp_all add: entry_def)

lemma index_fmempty: "{k. index fmempty k} = {}"
  by (simp add: index_def)

section \<open>Every line that is written parses\<close>

lemma unquote_replacement:
  "unquote (bslash # ''ufffd'' @ X) =
     prepend [char_of (239::nat), char_of (191::nat), char_of (189::nat)] (unquote X)"
  by (simp add: hex4_def hexval_def utf8_encode_def bslash_def dquote_def)

lemma unquote_loop_total:
  "\<exists>t'. unquote (appendString_loop t @ dquote # rest) = Some (t', rest)"
proof (induction t rule: appendString_loop.induct)
  case 1
  show ?case by simp
next
  case (2 b src)
  show ?case
  proof (cases "(of_char b :: nat) < 0x80")
    case True
    then obtain t' where IH: "unquote (appendString_loop src @ dquote # rest) = Some (t', rest)"
      using "2.IH"(1) by auto
    show ?thesis
    proof (cases "htmlSafe b")
      case T: True
      then have "b \<noteq> dquote" "b \<noteq> bslash" "(0x20::nat) \<le> of_char b"
        by (auto simp: htmlSafe_def)
      then have "unquote (b # appendString_loop src @ dquote # rest)
                   = prepend [b] (unquote (appendString_loop src @ dquote # rest))"
        by (rule unquote_plain)
      then show ?thesis using True T IH by simp
    next
      case F: False
      show ?thesis using True F IH unquote_escape[OF True F] by simp
    qed
  next
    case False
    obtain c sz where d: "utf8_DecodeRune (b # src) = (c, sz)"
      by (cases "utf8_DecodeRune (b # src)")
    from False have hi: "(0x80::nat) \<le> of_char b" by simp
    show ?thesis
    proof (cases "c = RuneError \<and> sz = 1")
      case True
      obtain t' where IH: "unquote (appendString_loop src @ dquote # rest) = Some (t', rest)"
        using "2.IH"(2)[OF False d[symmetric] True] by auto
      have A: "appendString_loop (b # src) = bslash # ''ufffd'' @ appendString_loop src"
        using False d True by simp
      have B: "unquote (bslash # ''ufffd'' @ (appendString_loop src @ dquote # rest)) =
               prepend [char_of (239::nat), char_of (191::nat), char_of (189::nat)] (Some (t', rest))"
        unfolding unquote_replacement IH ..
      have "unquote (appendString_loop (b # src) @ dquote # rest) =
               prepend [char_of (239::nat), char_of (191::nat), char_of (189::nat)] (Some (t', rest))"
        unfolding A using B by simp
      then show ?thesis unfolding prepend_Some by blast
    next
      case ne: False
      have high: "\<forall>x \<in> set (take sz (b # src)). (0x80::nat) \<le> of_char x"
        using DecodeRune_cases[OF hi d] ne by auto
      show ?thesis
      proof (cases "c = 0x2028 \<or> c = 0x2029")
        case True
        obtain t' where IH: "unquote (appendString_loop (drop (sz - 1) src) @ dquote # rest)
                    = Some (t', rest)"
          using "2.IH"(3)[OF False d[symmetric] ne True] by auto
        have A: "appendString_loop (b # src) =
                bslash # ''u202'' @ hex (c mod 16) # appendString_loop (drop (sz - 1) src)"
          using False d ne True by simp
        have B: "unquote (bslash # ''u202'' @ hex (c mod 16) #
                   (appendString_loop (drop (sz - 1) src) @ dquote # rest)) =
                 prepend [char_of (226::nat), char_of (128::nat), char_of (0xA0 + c mod 16)]
                   (Some (t', rest))"
          unfolding unquote_separator[OF True] IH ..
        have "unquote (appendString_loop (b # src) @ dquote # rest) =
                 prepend [char_of (226::nat), char_of (128::nat), char_of (0xA0 + c mod 16)]
                   (Some (t', rest))"
          unfolding A using B by simp
        then show ?thesis unfolding prepend_Some by blast
      next
        case F: False
        obtain t' where IH: "unquote (appendString_loop (drop (sz - 1) src) @ dquote # rest)
                    = Some (t', rest)"
          using "2.IH"(4)[OF False d[symmetric] ne F] by auto
        have A: "appendString_loop (b # src) =
                take sz (b # src) @ appendString_loop (drop (sz - 1) src)"
          using False d ne F by simp
        have B: "unquote (take sz (b # src) @
                   (appendString_loop (drop (sz - 1) src) @ dquote # rest)) =
                 prepend (take sz (b # src)) (Some (t', rest))"
          unfolding unquote_high[OF high] IH ..
        have "unquote (appendString_loop (b # src) @ dquote # rest) =
                 prepend (take sz (b # src)) (Some (t', rest))"
          unfolding A using B by simp
        then show ?thesis unfolding prepend_Some by blast
      qed
    qed
  qed
qed

lemma parse_record_total: "parse_record (json_bytes p) \<noteq> None"
proof -
  obtain t' where "unquote (appendString_loop (Text p) @ dquote # ''}'') = Some (t', ''}'')"
    using unquote_loop_total[of "Text p" "''}''"] by auto
  then show ?thesis by (simp add: parse_record_def json_bytes_shape Let_def)
qed


section \<open>Appends that complete\<close>

lemma split_lines_extend:
  "split_lines acc (C @ x) = split_lines acc C @ split_lines (rev (pending_acc acc C)) x"
  by (induction C arbitrary: acc) auto

lemma file_lines_extend: "prefix (file_lines C) (file_lines (C @ x))"
  by (simp add: file_lines_def split_lines_extend)

lemma writePostToFile_extends:
  "\<exists>x. contents (snd (writePostToFile M p f)) = contents f @ x"
  by (auto simp: writePostToFile_def file_Write_def file_WriteString_def
        split: sum.splits list.splits write_result.splits)

lemma writePostToFile_keeps_lines:
  "prefix (file_lines (contents f)) (file_lines (contents (snd (writePostToFile M p f))))"
  using writePostToFile_extends[of M p f] file_lines_extend by metis

lemma appends_append:
  "appends M (ps1 @ ps2) f =
     (case appends M ps1 f of None \<Rightarrow> None | Some f1 \<Rightarrow> appends M ps2 f1)"
  by (induction ps1 arbitrary: f) (auto split: prod.splits option.splits)

lemma appends_take:
  "appends M ps f = Some f' \<Longrightarrow> \<exists>fk. appends M (take k ps) f = Some fk"
  using appends_append[of M "take k ps" "drop k ps" f]
  by (auto split: option.splits)

lemma appends_contents:
  "serializer M \<Longrightarrow> appends M ps f = Some f' \<Longrightarrow>
   contents f' = contents f @ concat (map (\<lambda>p. json_bytes p @ [newline]) ps)"
proof (induction ps arbitrary: f)
  case Nil
  then show ?case by simp
next
  case (Cons p ps)
  obtain r f1 where w: "writePostToFile M p f = (r, f1)" by (cases "writePostToFile M p f")
  then have r: "r = None" and run: "appends M ps f1 = Some f'"
    using Cons.prems(2) by (auto split: option.splits)
  have "contents f1 = contents f @ json_bytes p @ [newline]"
    using writePostToFile_effect[OF Cons.prems(1) w] r by simp
  then show ?case using Cons.IH[OF Cons.prems(1) run] by simp
qed

lemma lines_after:
  "pending C = [] \<Longrightarrow>
   file_lines (C @ concat (map (\<lambda>p. json_bytes p @ [newline]) ps)) = file_lines C @ map json_bytes ps
   \<and> pending (C @ concat (map (\<lambda>p. json_bytes p @ [newline]) ps)) = []"
proof (induction ps rule: rev_induct)
  case Nil
  then show ?case by simp
next
  case (snoc p ps)
  let ?D = "C @ concat (map (\<lambda>p. json_bytes p @ [newline]) ps)"
  have "file_lines (?D @ json_bytes p @ [newline]) = file_lines ?D @ [pending ?D @ json_bytes p]"
    by (rule file_lines_line) (rule json_bytes_no_newline)
  then show ?case using snoc pending_line[of ?D "json_bytes p"] by simp
qed

lemma map_filter_parse:
  "list_all (\<lambda>p. utf8_ValidString (Text p)) ps \<Longrightarrow>
   List.map_filter parse_record (map json_bytes ps) = ps"
  by (induction ps) (simp_all add: List.map_filter_simps parse_record_json)

lemma appends_facts:
  assumes ser: "serializer M" and wf: "well_formed (contents f)" and run: "appends M ps f = Some f'"
  shows "contents f' = contents f @ concat (map (\<lambda>p. json_bytes p @ [newline]) ps)"
    and "file_lines (contents f') = file_lines (contents f) @ map json_bytes ps"
    and "well_formed (contents f')"
    and "list_all (\<lambda>p. utf8_ValidString (Text p)) ps \<Longrightarrow>
           read_records (contents f') = read_records (contents f) @ ps"
proof -
  show c: "contents f' = contents f @ concat (map (\<lambda>p. json_bytes p @ [newline]) ps)"
    using appends_contents[OF ser run] .
  have p0: "pending (contents f) = []" using wf by (simp add: well_formed_def)
  show l: "file_lines (contents f') = file_lines (contents f) @ map json_bytes ps"
    unfolding c using lines_after[OF p0] by simp
  show "well_formed (contents f')"
    using wf l lines_after[OF p0, of ps] parse_record_total
    by (simp add: well_formed_def c list_all_iff) blast
  show "read_records (contents f') = read_records (contents f) @ ps"
    if "list_all (\<lambda>p. utf8_ValidString (Text p)) ps"
    using that l map_filter_parse[of ps]
    by (simp add: read_records_def List.map_filter_def)
qed

section \<open>The store and the file\<close>

lemma consistent_frame:
  "consistent s \<Longrightarrow> postSet s' = postSet s \<Longrightarrow> outfile s' = outfile s \<Longrightarrow> consistent s'"
  by (simp add: consistent_def texts_def)

lemma lost_frame:
  "lost c s \<Longrightarrow> postSet s' = postSet s \<Longrightarrow> outfile s' = outfile s \<Longrightarrow> lost c s'"
  by (simp add: lost_def consistent_def texts_def)

lemma consistent_new: "contents (outfile s) = [] \<Longrightarrow> consistent s"
  by (simp add: consistent_def texts_def read_records_def file_lines_def List.map_filter_simps)

lemma consistent_entry: "consistent (entry t \<lparr>contents = [], faults = ws\<rparr>)"
  by (rule consistent_new) (simp add: entry_def)

lemma valid_item: "list_all utf8_ValidString l \<Longrightarrow> c \<in> set l \<Longrightarrow> utf8_ValidString c"
  by (simp add: list_all_iff)

lemma scrape_loop_consistent:
  assumes "serializer M" "list_all utf8_ValidString (snapshots cs)" "consistent s"
    "scrape_loop M endTime cs s = Some s'"
  shows "consistent s'"
proof (rule scrape_loop_inv[where P = consistent and M = M and cs = cs and s = s])
  fix c and s s' :: state
  assume "c \<in> set (snapshots cs)" "consistent s" "item_step M c s s'"
  then show "consistent s'"
    using item_step_consistent[OF assms(1) valid_item[OF assms(2)]] by blast
next
  fix s s' :: state
  assume "consistent s" "postSet s' = postSet s" "outfile s' = outfile s"
  then show "consistent s'" by (rule consistent_frame)
next
  show "consistent s" by (rule assms(3))
next
  show "scrape_loop M endTime cs s = Some s'" by (rule assms(4))
qed

lemma main_go_loop_consistent:
  assumes "serializer M" "list_all utf8_ValidString (snapshots cs)" "consistent s"
    "main_go_loop M endTime cs s = Some r"
  shows "consistent (final r)"
proof (rule main_go_loop_inv[where P = consistent and M = M and cs = cs and s = s])
  fix c and s s' :: state
  assume "c \<in> set (snapshots cs)" "consistent s" "item_step M c s s'"
  then show "consistent s'"
    using item_step_consistent[OF assms(1) valid_item[OF assms(2)]] by blast
next
  fix s s' :: state
  assume "consistent s" "postSet s' = postSet s" "outfile s' = outfile s"
  then show "consistent s'" by (rule consistent_frame)
next
  show "consistent s" by (rule assms(3))
next
  show "main_go_loop M endTime cs s = Some r" by (rule assms(4))
qed

lemma len_card: "len m = card (fmdom' m)"
  by (simp add: len_def fmdom'_alt_def fcard.rep_eq)

lemma index_fmdom': "index m k \<Longrightarrow> k \<in> fmdom' m"
  by (auto simp: index_def intro: fmdom'I split: option.splits)

lemma consistent_within:
  assumes "consistent s"
  shows "set (texts s) \<subseteq> fmdom' (postSet s) \<and> length (texts s) \<le> len (postSet s)"
proof -
  have sub: "set (texts s) \<subseteq> fmdom' (postSet s)"
    using assms index_fmdom' by (auto simp: consistent_def list_all_iff)
  have "finite (fmdom' (postSet s))" by (simp add: fmdom'_alt_def)
  then have "card (set (texts s)) \<le> card (fmdom' (postSet s))" using sub by (rule card_mono)
  moreover have "card (set (texts s)) = length (texts s)"
    using assms by (simp add: consistent_def distinct_card)
  ultimately show ?thesis using sub by (simp add: len_card)
qed

lemma length_map_filter_json:
  "length (List.map_filter parse_record (map json_bytes ps)) = length ps"
  using parse_record_total
  by (induction ps) (auto simp: List.map_filter_simps split: option.splits)

lemma absorb_ok_count:
  assumes "all_ok f" "contents f = []" "absorb json_Marshal X (fmempty, f) = (m', f')"
  shows "length (read_records (contents f')) = len m'"
proof -
  from absorb_ok[OF assms(1,3)]
  have c: "contents f' = concat (map line (first_seen X))" and d: "fmdom' m' = set X"
    using assms(2) by (simp_all add: index_fmempty fresh_of_empty)
  have "file_lines (contents f') = map json_bytes (map (\<lambda>t. \<lparr>Text = t\<rparr>) (first_seen X))"
    unfolding c using file_lines_records[of "first_seen X"] by (simp add: comp_def)
  then have "length (read_records (contents f')) = length (first_seen X)"
    using length_map_filter_json[of "map (\<lambda>t. \<lparr>Text = t\<rparr>) (first_seen X)"]
    by (simp add: read_records_def)
  moreover have "len m' = card (set (first_seen X))"
    using d by (simp add: len_card first_seen_set)
  ultimately show ?thesis using first_seen_distinct[of X] by (simp add: distinct_card)
qed

section \<open>An append that fails\<close>

lemma processPost_error:
  "processPost M c s = (Some err, s1) \<Longrightarrow>
   \<not> index (postSet s) c \<and> fst (writePostToFile M \<lparr>Text = c\<rparr> (outfile s)) = Some err"
  by (auto simp: processPost_def Let_def split: if_splits prod.splits option.splits)

lemma write_fail_records:
  "serializer M \<Longrightarrow> writePostToFile M p f = (Some err, f') \<Longrightarrow>
   read_records (contents f') = read_records (contents f)"
  using writePostToFile_effect[of M p f "Some err" f'] by (auto simp: read_records_append)

lemma item_fail_lost:
  assumes ser: "serializer M" and v: "utf8_ValidString c" and con: "consistent s"
    and ni: "\<not> index (postSet s) c"
    and w: "fst (writePostToFile M \<lparr>Text = c\<rparr> (outfile s)) = Some err"
    and st: "item_step M c s s'"
  shows "lost c s'"
proof -
  obtain f' where wf: "writePostToFile M \<lparr>Text = c\<rparr> (outfile s) = (Some err, f')"
    using w by (cases "writePostToFile M \<lparr>Text = c\<rparr> (outfile s)") auto
  have f: "outfile s' = f'" and m: "postSet s' = fmupd c True (postSet s)"
    using st ni wf by (auto simp: item_step_def)
  have "texts s' = texts s" using write_fail_records[OF ser wf] f by (simp add: texts_def)
  moreover have "c \<notin> set (texts s)" using con ni by (auto simp: consistent_def list_all_iff)
  moreover have "index (postSet s') c" using m by (simp add: index_fmupd)
  ultimately show ?thesis using item_step_consistent[OF ser v st con] by (simp add: lost_def)
qed

lemma main_go_item_fail_log:
  "\<not> index (postSet s) c \<Longrightarrow> fst (writePostToFile M \<lparr>Text = c\<rparr> (outfile s)) = Some err \<Longrightarrow>
   \<exists>msg e. logs (main_go_item M c s) = logs s @ [PrintlnErr msg e]"
  by (auto simp: main_go_item_def writePostToFile_def log_add_def Let_def
        split: sum.splits prod.splits option.splits)

lemma scrape_loop_lost:
  assumes "serializer M" "list_all utf8_ValidString (snapshots cs)" "lost x s"
    "scrape_loop M endTime cs s = Some s'"
  shows "lost x s'"
proof (rule scrape_loop_inv[where P = "lost x" and M = M and cs = cs and s = s])
  fix c and s s' :: state
  assume "c \<in> set (snapshots cs)" "lost x s" "item_step M c s s'"
  then show "lost x s'"
    using item_step_lost[OF assms(1) valid_item[OF assms(2)]] by blast
next
  fix s s' :: state
  assume "lost x s" "postSet s' = postSet s" "outfile s' = outfile s"
  then show "lost x s'" by (rule lost_frame)
next
  show "lost x s" by (rule assms(3))
next
  show "scrape_loop M endTime cs s = Some s'" by (rule assms(4))
qed

lemma main_go_loop_lost:
  assumes "serializer M" "list_all utf8_ValidString (snapshots cs)" "lost x s"
    "main_go_loop M endTime cs s = Some r"
  shows "lost x (final r)"
proof (rule main_go_loop_inv[where P = "lost x" and M = M and cs = cs and s = s])
  fix c and s s' :: state
  assume "c \<in> set (snapshots cs)" "lost x s" "item_step M c s s'"
  then show "lost x s'"
    using item_step_lost[OF assms(1) valid_item[OF assms(2)]] by blast
next
  fix s s' :: state
  assume "lost x s" "postSet s' = postSet s" "outfile s' = outfile s"
  then show "lost x s'" by (rule lost_frame)
next
  show "lost x s" by (rule assms(3))
next
  show "main_go_loop M endTime cs s = Some r" by (rule assms(4))
qed

lemma main_go_loop_no_fatal:
  "list_all (\<lambda>cy. \<exists>l. capture cy = Inr l) cs \<Longrightarrow> main_go_loop M endTime cs s \<noteq> Some (Fatal e s')"
proof (induction cs arbitrary: s)
  case Nil
  then show ?case by simp
next
  case (Cons cy cs)
  then obtain l where "capture cy = Inr l" by auto
  then show ?case using Cons by (simp add: main_go_cycle_def Let_def)
qed

section \<open>The process around the loop\<close>

lemma counts_append: "counts (l1 @ l2) = counts l1 @ counts l2"
  by (induction l1 rule: counts.induct) simp_all

lemma scrapeChannel_cases:
  assumes "scrapeChannel M e cfg d = Some (r, d', l)"
  shows "(r \<noteq> None \<and> d' = d \<and> counts l = [])
       \<or> (\<exists>s'. r = None
            \<and> scrape_loop M (clock e + ScrollDuration cfg) (cycles e)
                 ((entry (clock e + delay e)
                     (opened e d (filepath_Join (OutputDir cfg)
                        (createUniqueFilename (ChannelName cfg) (timestamp e)))))
                  \<lparr>logs := [Println ''Navigating to the channel...'',
                            Println ''Successfully navigated to the channel.'',
                            Println ''Starting to scroll and collect unique posts...'']\<rparr>) = Some s'
            \<and> files d' = (files d)(filepath_Join (OutputDir cfg)
                        (createUniqueFilename (ChannelName cfg) (timestamp e)) \<mapsto> contents (outfile s'))
            \<and> l = logs s' @ [Println ''Finished scrolling and collecting unique posts.''])"
  using assms
  by (auto simp: scrapeChannel_def os_OpenFile_def flush_def opened_def stored_def Let_def
        split: option.splits sum.splits)

lemma createFolderIfNotExists_counts:
  "createFolderIfNotExists n st mk d = Inr (d', l) \<Longrightarrow> files d' = files d \<and> counts l = []"
  by (auto simp: createFolderIfNotExists_def split: if_splits option.splits)

text \<open>A run of \<^verbatim>\<open>part_000\<close> either ends fatally before the loop, with the files of the disk
  as they were, or it is a run of the loop on the handle of the output file.\<close>

lemma main_cases:
  assumes "main M e d = Some x"
  shows "(files (fst (final x)) = files d \<and> counts (snd (final x)) = []
            \<and> (\<exists>err y. x = Fatal err y))
       \<or> (\<exists>endTime s' l0 l1. deadline e = Some endTime \<and> counts l0 = [] \<and> counts l1 = []
            \<and> scrape_loop M endTime (cycles e)
                 ((entry (clock e + delay e) (opened e d (filePath e)))\<lparr>logs := l0\<rparr>) = Some s'
            \<and> files (fst (final x)) = (files d)(filePath e \<mapsto> contents (outfile s'))
            \<and> snd (final x) = l1 @ logs s' @ [Println ''Finished scrolling and collecting unique posts.'']
            \<and> (\<exists>y. x = Returned y))"
proof (cases "NewConfig e")
  case None
  then show ?thesis using assms by (simp add: main_def)
next
  case (Some a)
  show ?thesis
  proof (cases a)
    case (Inl err)
    then show ?thesis using assms Some by (auto simp: main_def)
  next
    case (Inr cfg)
    have cfg: "deadline e = Some (clock e + ScrollDuration cfg)"
      "filepath_Join (OutputDir cfg) (createUniqueFilename (ChannelName cfg) (timestamp e))
         = filePath e"
      using Some Inr
      by (auto simp: NewConfig_def deadline_def readScrollDuration_def filePath_def Let_def
            split: option.splits)
    show ?thesis
    proof (cases "createFolderIfNotExists (OutputDir cfg) (stat e) (mkdir e) d")
      case (Inl err)
      then show ?thesis using assms Some Inr by (auto simp: main_def)
    next
      case f: (Inr q)
      obtain d1 l1 where q: "q = (d1, l1)" by (cases q)
      have d1: "files d1 = files d" "counts l1 = []"
        using createFolderIfNotExists_counts f q by blast+
      obtain r d' l where sc: "scrapeChannel M e cfg d1 = Some (r, d', l)"
        using assms Some Inr f q by (auto simp: main_def split: option.splits)
      from scrapeChannel_cases[OF sc] show ?thesis
      proof
        assume "r \<noteq> None \<and> d' = d1 \<and> counts l = []"
        then show ?thesis using assms Some Inr f q sc d1
          by (auto simp: main_def counts_append)
      next
        assume "\<exists>s'. r = None
            \<and> scrape_loop M (clock e + ScrollDuration cfg) (cycles e)
                 ((entry (clock e + delay e)
                     (opened e d1 (filepath_Join (OutputDir cfg)
                        (createUniqueFilename (ChannelName cfg) (timestamp e)))))
                  \<lparr>logs := [Println ''Navigating to the channel...'',
                            Println ''Successfully navigated to the channel.'',
                            Println ''Starting to scroll and collect unique posts...'']\<rparr>) = Some s'
            \<and> files d' = (files d1)(filepath_Join (OutputDir cfg)
                        (createUniqueFilename (ChannelName cfg) (timestamp e)) \<mapsto> contents (outfile s'))
            \<and> l = logs s' @ [Println ''Finished scrolling and collecting unique posts.'']"
        then obtain s' where r: "r = None"
          and run: "scrape_loop M (clock e + ScrollDuration cfg) (cycles e)
                 ((entry (clock e + delay e) (opened e d1 (filePath e)))
                  \<lparr>logs := [Println ''Navigating to the channel...'',
                            Println ''Successfully navigated to the channel.'',
                            Println ''Starting to scroll and collect unique posts...'']\<rparr>) = Some s'"
          and fd: "files d' = (files d1)(filePath e \<mapsto> contents (outfile s'))"
          and l: "l = logs s' @ [Println ''Finished scrolling and collecting unique posts.'']"
          unfolding cfg(2) by blast
        have op: "opened e d1 (filePath e) = opened e d (filePath e)"
          using d1 by (simp add: opened_def stored_def)
        have x: "x = Returned (d', l1 @ l)"
          using assms Some Inr f q sc r by (simp add: main_def)
        show ?thesis
          apply (rule disjI2)
          apply (rule exI[of _ "clock e + ScrollDuration cfg"])
          apply (rule exI[of _ s'])
          apply (rule exI[of _ "[Println ''Navigating to the channel...'',
                            Println ''Successfully navigated to the channel.'',
                            Println ''Starting to scroll and collect unique posts...'']"])
          apply (rule exI[of _ l1])
          using cfg(1) run fd l x d1 op by simp
      qed
    qed
  qed
qed

text \<open>The same for \<^verbatim>\<open>src/main.go\<close>, whose loop may end fatally.\<close>

lemma main_go_cases:
  assumes "main_go M e d = Some x"
  shows "(files (fst (final x)) = files d \<and> counts (snd (final x)) = []
            \<and> (\<exists>err y. x = Fatal err y))
       \<or> (\<exists>endTime r l0. deadline e = Some endTime \<and> counts l0 = []
            \<and> main_go_loop M endTime (cycles e)
                 ((entry (clock e + delay e) (opened e d (main_go_filePath e)))\<lparr>logs := l0\<rparr>) = Some r
            \<and> files (fst (final x)) = (files d)(main_go_filePath e \<mapsto> contents (outfile (final r)))
            \<and> counts (snd (final x)) = counts (logs (final r))
            \<and> (\<forall>s'. r = Returned s' \<longrightarrow>
                  x = Returned (fst (final x),
                        logs s' @ [Println ''Finished scrolling and collecting unique posts.'']))
            \<and> (\<forall>err s'. r = Fatal err s' \<longrightarrow> x = Fatal err (fst (final x), logs s')))"
proof (cases "dotenv e")
  case (Some a)
  then show ?thesis using assms by (auto simp: main_go_def)
next
  case None
  let ?cn = "if CHANNEL_NAME e = [] then main_go_readChannelName (scanln e)
             else Inr (CHANNEL_NAME e)"
  show ?thesis
  proof (cases ?cn)
    case (Inl err)
    then show ?thesis using assms None by (auto simp: main_go_def)
  next
    case (Inr channelName)
    then have cn: "channelName = (if CHANNEL_NAME e = [] then main_go_extractChannelName (snd (scanln e))
           else CHANNEL_NAME e)"
      by (auto simp: main_go_readChannelName_def split: if_splits option.splits)
    show ?thesis
    proof (cases "handshake e")
      case (Some err)
      then show ?thesis using assms None Inr by (auto simp: main_go_def)
    next
      case h: None
      obtain k where k: "readNumber (scanf e) = Some k"
        using assms None Inr h by (cases "readNumber (scanf e)") (auto simp: main_go_def Let_def)
      have dl: "deadline e = Some (clock e + nat k * minute)" using k by (simp add: deadline_def)
      show ?thesis
      proof (cases "main_go_createFolderIfNotExists ''posts'' (stat e) (mkdir e) d")
        case (Inl err)
        then show ?thesis using assms None Inr h k by (auto simp: main_go_def Let_def)
      next
        case f: (Inr d1)
        have d1: "files d1 = files d"
          using f by (auto simp: main_go_createFolderIfNotExists_def split: if_splits option.splits)
        have fp: "filepath_Join ''posts'' (createUniqueFilename channelName (timestamp e))
                    = main_go_filePath e"
          using cn by (simp add: main_go_filePath_def)
        show ?thesis
        proof (cases "openfile e")
          case (Some err)
          then show ?thesis using assms None Inr h k f d1
            by (auto simp: main_go_def os_OpenFile_def Let_def)
        next
          case o: None
          let ?l0 = "[Println ''Navigating to the channel...'',
                      Println ''Successfully navigated to the channel.'',
                      Println ''Starting to scroll and collect unique posts...'']"
          let ?s0 = "(entry (clock e + delay e) (opened e d (main_go_filePath e)))\<lparr>logs := ?l0\<rparr>"
          have op: "os_OpenFile (main_go_filePath e) (openfile e) (writes e) d1
                      = Inr (opened e d (main_go_filePath e),
                             d1\<lparr>files := (files d1)(main_go_filePath e \<mapsto> stored d (main_go_filePath e))\<rparr>)"
            using o d1 by (simp add: os_OpenFile_def opened_def stored_def Let_def)
          let ?p = "filepath_Join ''posts'' (createUniqueFilename channelName (timestamp e))"
          have m: "main_go M e d =
               (case main_go_loop M (clock e + nat k * minute) (cycles e) ?s0 of
                  None \<Rightarrow> None
                | Some (Fatal err s) \<Rightarrow> Some (Fatal err (flush ?p s
                     (d1\<lparr>files := (files d1)(main_go_filePath e \<mapsto> stored d (main_go_filePath e))\<rparr>), logs s))
                | Some (Returned s) \<Rightarrow>
                    Some (Returned (flush ?p s
                     (d1\<lparr>files := (files d1)(main_go_filePath e \<mapsto> stored d (main_go_filePath e))\<rparr>),
                      logs s @ [Println ''Finished scrolling and collecting unique posts.''])))"
            using None Inr h k f op by (simp add: main_go_def Let_def fp)
          obtain r where r: "main_go_loop M (clock e + nat k * minute) (cycles e) ?s0 = Some r"
            using assms m by (auto split: option.splits)
          have "\<exists>r l0. deadline e = Some (clock e + nat k * minute) \<and> counts l0 = []
            \<and> main_go_loop M (clock e + nat k * minute) (cycles e)
                 ((entry (clock e + delay e) (opened e d (main_go_filePath e)))\<lparr>logs := l0\<rparr>) = Some r
            \<and> files (fst (final x)) = (files d)(main_go_filePath e \<mapsto> contents (outfile (final r)))
            \<and> counts (snd (final x)) = counts (logs (final r))
            \<and> (\<forall>s'. r = Returned s' \<longrightarrow>
                  x = Returned (fst (final x),
                        logs s' @ [Println ''Finished scrolling and collecting unique posts.'']))
            \<and> (\<forall>err s'. r = Fatal err s' \<longrightarrow> x = Fatal err (fst (final x), logs s'))"
            apply (rule exI[of _ r])
            apply (rule exI[of _ ?l0])
            using assms m r dl d1
            by (cases r) (auto simp: flush_def counts_append fp)
          then show ?thesis by blast
        qed
      qed
    qed
  qed
qed

lemma consistent_no_records: "read_records (contents (outfile s)) = [] \<Longrightarrow> consistent s"
  by (simp add: consistent_def texts_def)

lemma outfile_entry_logs [simp]:
  "outfile ((entry t f)\<lparr>logs := l\<rparr>) = f" "postSet ((entry t f)\<lparr>logs := l\<rparr>) = fmempty"
  "now ((entry t f)\<lparr>logs := l\<rparr>) = t" "logs ((entry t f)\<lparr>logs := l\<rparr>) = l"
  by (simp_all add: entry_def)

lemma logs_scrape_cycle:
  "\<exists>l t. logs (scrape_cycle M endTime cy s)
           = l @ [Progress (len (postSet (scrape_cycle M endTime cy s))) t]"
  by (simp add: scrape_cycle_def report_def log_add_def Let_def split: prod.splits option.splits)

lemma logs_main_go_cycle:
  "main_go_cycle M endTime cy s = Inr s1 \<Longrightarrow>
   \<exists>l t. logs s1 = l @ [Progress (len (postSet s1)) t]"
  by (auto simp: main_go_cycle_def report_def log_add_def Let_def split: sum.splits)

text \<open>The last count that a loop has reported is the size of the store at its end.\<close>

lemma scrape_loop_counts:
  "scrape_loop M endTime cs s = Some s' \<Longrightarrow>
   (data s' = data s \<and> counts (logs s') = counts (logs s))
   \<or> (counts (logs s') \<noteq> [] \<and> last (counts (logs s')) = len (postSet s'))"
proof (induction cs arbitrary: s)
  case Nil
  then show ?case by (simp split: if_splits)
next
  case (Cons cy cs)
  show ?case
  proof (cases "now s < endTime")
    case False
    then show ?thesis using Cons.prems by simp
  next
    case True
    let ?s1 = "scrape_cycle M endTime cy s"
    obtain l t where l: "logs ?s1 = l @ [Progress (len (postSet ?s1)) t]"
      using logs_scrape_cycle by blast
    have run: "scrape_loop M endTime cs ?s1 = Some s'" using Cons.prems True by simp
    from Cons.IH[OF run] show ?thesis
    proof
      assume "data s' = data ?s1 \<and> counts (logs s') = counts (logs ?s1)"
      then have "counts (logs s') = counts l @ [len (postSet s')]"
        using l by (simp add: counts_append data_def)
      then show ?thesis by simp
    next
      assume "counts (logs s') \<noteq> [] \<and> last (counts (logs s')) = len (postSet s')"
      then show ?thesis by simp
    qed
  qed
qed

lemma main_go_loop_counts:
  "main_go_loop M endTime cs s = Some r \<Longrightarrow>
   (data (final r) = data s \<and> counts (logs (final r)) = counts (logs s))
   \<or> (counts (logs (final r)) \<noteq> [] \<and> last (counts (logs (final r))) = len (postSet (final r)))"
proof (induction cs arbitrary: s)
  case Nil
  then show ?case by (auto split: if_splits)
next
  case (Cons cy cs)
  show ?case
  proof (cases "now s < endTime")
    case False
    then show ?thesis using Cons.prems by auto
  next
    case True
    show ?thesis
    proof (cases "main_go_cycle M endTime cy s")
      case (Inl err)
      then have "r = Fatal err (log_add (PrintlnErr [] err) (s\<lparr>now := now s + busy cy\<rparr>))"
        using Cons.prems True by simp
      then show ?thesis by (simp add: log_add_def data_def counts_append)
    next
      case (Inr s1)
      obtain l t where l: "logs s1 = l @ [Progress (len (postSet s1)) t]"
        using logs_main_go_cycle[OF Inr] by blast
      have run: "main_go_loop M endTime cs s1 = Some r" using Cons.prems True Inr by simp
      from Cons.IH[OF run] show ?thesis
      proof
        assume "data (final r) = data s1 \<and> counts (logs (final r)) = counts (logs s1)"
        then have "counts (logs (final r)) = counts l @ [len (postSet (final r))]"
          using l by (simp add: counts_append data_def)
        then show ?thesis by simp
      next
        assume "counts (logs (final r)) \<noteq> []
                \<and> last (counts (logs (final r))) = len (postSet (final r))"
        then show ?thesis by simp
      qed
    qed
  qed
qed

section \<open>No text twice among the records\<close>

lemma range_processPost_consistent:
  assumes "serializer M" "list_all utf8_ValidString l" "consistent s"
  shows "consistent (range_processPost M l s)"
proof (rule range_processPost_inv[where P = consistent])
  fix c and s s' :: state
  assume "c \<in> set l" "consistent s" "item_step M c s s'"
  then show "consistent s'"
    using item_step_consistent[OF assms(1) valid_item[OF assms(2)]] by blast
next
  show "consistent s" by (rule assms(3))
qed

lemma main_go_range_consistent:
  assumes "serializer M" "list_all utf8_ValidString l" "consistent s"
  shows "consistent (main_go_range M l s)"
proof (rule main_go_range_inv[where P = consistent])
  fix c and s s' :: state
  assume "c \<in> set l" "consistent s" "item_step M c s s'"
  then show "consistent s'"
    using item_step_consistent[OF assms(1) valid_item[OF assms(2)]] by blast
next
  show "consistent s" by (rule assms(3))
qed

lemma consistent_opened:
  "read_records (stored d p) = [] \<Longrightarrow> consistent ((entry t (opened e d p))\<lparr>logs := l\<rparr>)"
  by (rule consistent_no_records) (simp add: opened_def)

lemma stored_same: "files d' = files d \<Longrightarrow> stored d' p = stored d p"
  by (simp add: stored_def)

lemma stored_written: "files d' = (files d)(p \<mapsto> c) \<Longrightarrow> stored d' p = c"
  by (simp add: stored_def)

text \<open>A run of either program keeps the store and the output file in agreement when the file
  it opens holds no record.\<close>

lemma main_consistent:
  assumes ser: "serializer M" and v: "list_all utf8_ValidString (snapshots (cycles e))"
    and new: "read_records (stored d (filePath e)) = []"
    and run: "main M e d = Some x"
  shows "stored (fst (final x)) (filePath e) = stored d (filePath e)
       \<or> (\<exists>s'. consistent s' \<and> stored (fst (final x)) (filePath e) = contents (outfile s')
             \<and> (counts (snd (final x)) \<noteq> [] \<longrightarrow>
                   last (counts (snd (final x))) = len (postSet s')))"
  using main_cases[OF run]
proof
  assume "files (fst (final x)) = files d \<and> counts (snd (final x)) = []
            \<and> (\<exists>err y. x = Fatal err y)"
  then show ?thesis using stored_same by blast
next
  assume "\<exists>endTime s' l0 l1. deadline e = Some endTime \<and> counts l0 = [] \<and> counts l1 = []
            \<and> scrape_loop M endTime (cycles e)
                 ((entry (clock e + delay e) (opened e d (filePath e)))\<lparr>logs := l0\<rparr>) = Some s'
            \<and> files (fst (final x)) = (files d)(filePath e \<mapsto> contents (outfile s'))
            \<and> snd (final x) = l1 @ logs s' @ [Println ''Finished scrolling and collecting unique posts.'']
            \<and> (\<exists>y. x = Returned y)"
  then obtain endTime s' l0 l1 where c0: "counts l0 = []" and c1: "counts l1 = []"
    and loop: "scrape_loop M endTime (cycles e)
                 ((entry (clock e + delay e) (opened e d (filePath e)))\<lparr>logs := l0\<rparr>) = Some s'"
    and fd: "files (fst (final x)) = (files d)(filePath e \<mapsto> contents (outfile s'))"
    and lg: "snd (final x) = l1 @ logs s' @ [Println ''Finished scrolling and collecting unique posts.'']"
    by blast
  have con: "consistent s'"
    using scrape_loop_consistent[OF ser v consistent_opened[OF new] loop] .
  have cnt: "counts (snd (final x)) = counts (logs s')"
    using lg c1 by (simp add: counts_append)
  have "counts (logs s') \<noteq> [] \<longrightarrow> last (counts (logs s')) = len (postSet s')"
    using scrape_loop_counts[OF loop] c0 by auto
  then show ?thesis using con stored_written[OF fd] cnt by auto
qed

lemma main_go_consistent:
  assumes ser: "serializer M" and v: "list_all utf8_ValidString (snapshots (cycles e))"
    and new: "read_records (stored d (main_go_filePath e)) = []"
    and run: "main_go M e d = Some x"
  shows "stored (fst (final x)) (main_go_filePath e) = stored d (main_go_filePath e)
       \<or> (\<exists>s'. consistent s'
             \<and> stored (fst (final x)) (main_go_filePath e) = contents (outfile s')
             \<and> (counts (snd (final x)) \<noteq> [] \<longrightarrow>
                   last (counts (snd (final x))) = len (postSet s')))"
  using main_go_cases[OF run]
proof
  assume "files (fst (final x)) = files d \<and> counts (snd (final x)) = []
            \<and> (\<exists>err y. x = Fatal err y)"
  then show ?thesis using stored_same by blast
next
  assume "\<exists>endTime r l0. deadline e = Some endTime \<and> counts l0 = []
            \<and> main_go_loop M endTime (cycles e)
                 ((entry (clock e + delay e) (opened e d (main_go_filePath e)))\<lparr>logs := l0\<rparr>) = Some r
            \<and> files (fst (final x)) = (files d)(main_go_filePath e \<mapsto> contents (outfile (final r)))
            \<and> counts (snd (final x)) = counts (logs (final r))
            \<and> (\<forall>s'. r = Returned s' \<longrightarrow>
                  x = Returned (fst (final x),
                        logs s' @ [Println ''Finished scrolling and collecting unique posts.'']))
            \<and> (\<forall>err s'. r = Fatal err s' \<longrightarrow> x = Fatal err (fst (final x), logs s'))"
  then obtain endTime r l0 where c0: "counts l0 = []"
    and loop: "main_go_loop M endTime (cycles e)
                 ((entry (clock e + delay e) (opened e d (main_go_filePath e)))\<lparr>logs := l0\<rparr>) = Some r"
    and fd: "files (fst (final x)) = (files d)(main_go_filePath e \<mapsto> contents (outfile (final r)))"
    and cnt: "counts (snd (final x)) = counts (logs (final r))"
    by blast
  have con: "consistent (final r)"
    using main_go_loop_consistent[OF ser v consistent_opened[OF new] loop] .
  have "counts (logs (final r)) \<noteq> [] \<longrightarrow> last (counts (logs (final r))) = len (postSet (final r))"
    using main_go_loop_counts[OF loop] c0 by auto
  then show ?thesis using con stored_written[OF fd] cnt by auto
qed

text \<open>
  Claim C2, as amended. A run that opens an output file in which there is no record (the file
  it creates, or one that is empty) never has two records with the same text in it: at the end
  of every run of \<^verbatim>\<open>part_000\<close> and of \<^verbatim>\<open>src/main.go\<close>, normal or fatal, and after every
  list of items handled from the entry to the loop, however often an item is repeated within
  one snapshot or over several, and whichever writes fail. The snapshot items are valid UTF-8,
  as the browser driver delivers them, and the serializer answers with the bytes of
  \<^verbatim>\<open>encoding/json\<close> whenever it answers.
\<close>

theorem records_unique:
  "(serializer M \<and> list_all utf8_ValidString (snapshots (cycles e))
      \<and> read_records (stored d (filePath e)) = [] \<longrightarrow>
      (\<forall>x. main M e d = Some x \<longrightarrow>
         distinct (map Text (read_records (stored (fst (final x)) (filePath e))))))
   \<and> (serializer M \<and> list_all utf8_ValidString (snapshots (cycles e))
      \<and> read_records (stored d (main_go_filePath e)) = [] \<longrightarrow>
      (\<forall>x. main_go M e d = Some x \<longrightarrow>
         distinct (map Text (read_records (stored (fst (final x)) (main_go_filePath e))))))
   \<and> (serializer M \<and> list_all utf8_ValidString l \<and> read_records (contents f) = [] \<longrightarrow>
      distinct (map Text (read_records (contents (outfile
         (range_processPost M l (entry t f))))))
      \<and> distinct (map Text (read_records (contents (outfile
         (main_go_range M l (entry t f)))))))"
proof -
  have d: "consistent y \<Longrightarrow> distinct (map Text (read_records (contents (outfile y))))" for y
    by (simp add: consistent_def texts_def)
  have A: "distinct (map Text (read_records (stored (fst (final x)) (filePath e))))"
    if "serializer M" "list_all utf8_ValidString (snapshots (cycles e))"
      "read_records (stored d (filePath e)) = []" "main M e d = Some x" for x
    using main_consistent[OF that] that(3) d by auto
  have B: "distinct (map Text (read_records (stored (fst (final x)) (main_go_filePath e))))"
    if "serializer M" "list_all utf8_ValidString (snapshots (cycles e))"
      "read_records (stored d (main_go_filePath e)) = []" "main_go M e d = Some x" for x
    using main_go_consistent[OF that] that(3) d by auto
  have e0: "consistent (entry t f)" if "read_records (contents f) = []"
    using that by (intro consistent_no_records) (simp add: entry_def)
  have C: "distinct (map Text (read_records (contents (outfile
         (range_processPost M l (entry t f))))))
      \<and> distinct (map Text (read_records (contents (outfile
         (main_go_range M l (entry t f))))))"
    if "serializer M" "list_all utf8_ValidString l" "read_records (contents f) = []"
    using range_processPost_consistent[OF that(1,2) e0[OF that(3)]]
      main_go_range_consistent[OF that(1,2) e0[OF that(3)]] d by blast
  show ?thesis using A B C by blast
qed

theorem records_unique_witness:
  "serializer json_Marshal
   \<and> list_all utf8_ValidString (snapshots (cycles (failing\<lparr>cycles := scenario\<rparr>)))
   \<and> filePath (failing\<lparr>cycles := scenario\<rparr>) = ''posts/durov_posts_20240101120000.json''
   \<and> read_records (stored blank (filePath (failing\<lparr>cycles := scenario\<rparr>))) = []
   \<and> (case main json_Marshal (failing\<lparr>cycles := scenario\<rparr>) blank of
        Some (Returned (d, l)) \<Rightarrow>
          stored d ''posts/durov_posts_20240101120000.json''
            = json_bytes \<lparr>Text = ''A''\<rparr> @ line ''B'' @ line ''C''
          \<and> distinct (map Text (read_records (stored d ''posts/durov_posts_20240101120000.json'')))
      | _ \<Rightarrow> False)
   \<and> distinct (map Text (read_records (contents (outfile
         (main_go_range json_Marshal [''A'', ''B'', ''A'', ''C'', ''B'']
            (entry 0 \<lparr>contents = [], faults = []\<rparr>))))))"
proof -
  let ?e = "failing\<lparr>cycles := scenario\<rparr>"
  let ?p = "''posts/durov_posts_20240101120000.json''"
  have v: "list_all utf8_ValidString (snapshots (cycles ?e))"
    using scenario_valid by simp
  have p: "filePath ?e = ?p"
    by (simp add: filePath_def failing_def run_defs)
  have n: "read_records (stored blank (filePath ?e)) = []"
    by (simp add: stored_def blank_def read_records_def file_lines_def List.map_filter_simps)
  have "\<exists>d l. main json_Marshal ?e blank = Some (Returned (d, l))
          \<and> stored d ?p = json_bytes \<lparr>Text = ''A''\<rparr> @ line ''B'' @ line ''C''"
    by (simp add: run_defs failing_def scenario_def stored_def)
  then obtain d l where r: "main json_Marshal ?e blank = Some (Returned (d, l))"
    and c: "stored d ?p = json_bytes \<lparr>Text = ''A''\<rparr> @ line ''B'' @ line ''C''"
    by blast
  note T = records_unique[where M = json_Marshal and e = ?e and d = blank
      and l = "[''A'', ''B'', ''A'', ''C'', ''B'']" and f = "\<lparr>contents = [], faults = []\<rparr>"
      and t = 0]
  have "distinct (map Text (read_records (stored (fst (final (Returned (d, l)))) (filePath ?e))))"
    using T serializer_json v n r by blast
  then have u: "distinct (map Text (read_records (stored d ?p)))" using p by simp
  have v2: "list_all utf8_ValidString [''A'', ''B'', ''A'', ''C'', ''B'']" by simp
  have n2: "read_records (contents \<lparr>contents = [], faults = []\<rparr>) = []"
    by (simp add: read_records_def file_lines_def List.map_filter_simps)
  have g: "distinct (map Text (read_records (contents (outfile
         (main_go_range json_Marshal [''A'', ''B'', ''A'', ''C'', ''B'']
            (entry 0 \<lparr>contents = [], faults = []\<rparr>))))))"
    using T serializer_json v2 n2 by blast
  show ?thesis using serializer_json v p n r c u g by simp
qed

text \<open>Claim C2 as stated fails for a run that opens a file in which there are records. The
  file is opened to append and the store of the run starts empty, so both programs write the
  text \<^verbatim>\<open>A\<close>, which the file holds, once more.\<close>

theorem reused_file_repeats:
  "(case main json_Marshal (healthy\<lparr>cycles := scenario\<rparr>) reused of
      Some (Returned (d, l)) \<Rightarrow>
        stored d ''posts/durov_posts_20240101120000.json''
          = line ''A'' @ line ''A'' @ line ''B'' @ line ''C''
    | _ \<Rightarrow> False)
   \<and> (case main_go json_Marshal (healthy\<lparr>cycles := scenario\<rparr>) reused of
      Some (Returned (d, l)) \<Rightarrow>
        stored d ''posts/durov_posts_20240101120000.json''
          = line ''A'' @ line ''A'' @ line ''B'' @ line ''C''
    | _ \<Rightarrow> False)
   \<and> map Text (read_records (line ''A'' @ line ''A'' @ line ''B'' @ line ''C''))
        = [''A'', ''A'', ''B'', ''C'']
   \<and> \<not> distinct (map Text (read_records (line ''A'' @ line ''A'' @ line ''B'' @ line ''C'')))"
proof -
  have 1: "(case main json_Marshal (healthy\<lparr>cycles := scenario\<rparr>) reused of
      Some (Returned (d, l)) \<Rightarrow>
        stored d ''posts/durov_posts_20240101120000.json''
          = line ''A'' @ line ''A'' @ line ''B'' @ line ''C''
    | _ \<Rightarrow> False)"
    by (simp add: run_defs scenario_def reused_def stored_def)
  have 2: "(case main_go json_Marshal (healthy\<lparr>cycles := scenario\<rparr>) reused of
      Some (Returned (d, l)) \<Rightarrow>
        stored d ''posts/durov_posts_20240101120000.json''
          = line ''A'' @ line ''A'' @ line ''B'' @ line ''C''
    | _ \<Rightarrow> False)"
    by (simp add: run_defs scenario_def reused_def stored_def)
  have "read_records (concat (map line [''A'', ''A'', ''B'', ''C'']))
          = map (\<lambda>t. \<lparr>Text = t\<rparr>) [''A'', ''A'', ''B'', ''C'']"
    by (rule read_records_valid) simp
  then have 3: "map Text (read_records (line ''A'' @ line ''A'' @ line ''B'' @ line ''C''))
        = [''A'', ''A'', ''B'', ''C'']"
    by simp
  show ?thesis using 1 2 3 by simp
qed

section \<open>The store, the file and the count of the progress line\<close>

lemma scrape_cycle_consistent:
  assumes "serializer M" "list_all utf8_ValidString (items cy)" "consistent s"
  shows "consistent (scrape_cycle M endTime cy s)"
proof (rule scrape_cycle_inv[where P = consistent])
  fix c and s s' :: state
  assume "c \<in> set (items cy)" "consistent s" "item_step M c s s'"
  then show "consistent s'"
    using item_step_consistent[OF assms(1) valid_item[OF assms(2)]] by blast
next
  fix s s' :: state
  assume "consistent s" "postSet s' = postSet s" "outfile s' = outfile s"
  then show "consistent s'" by (rule consistent_frame)
next
  show "consistent s" by (rule assms(3))
qed

lemma main_go_cycle_consistent:
  assumes "serializer M" "list_all utf8_ValidString (items cy)" "consistent s"
    and "main_go_cycle M endTime cy s = Inr s1"
  shows "consistent s1"
proof -
  obtain l where l: "capture cy = Inr l" using assms(4)
    by (cases "capture cy") (simp_all add: main_go_cycle_def)
  then have v: "list_all utf8_ValidString l" using assms(2) by (simp add: items_def)
  have "consistent (main_go_range M l s)"
    using main_go_range_consistent[OF assms(1) v assms(3)] .
  then show ?thesis
    using assms(4) l
    by (auto simp: main_go_cycle_def Let_def report_def log_add_def intro: consistent_frame)
qed

lemma main_go_loop_absorbed:
  "main_go_loop M endTime cs s = Some r \<Longrightarrow> \<exists>X. data (final r) = absorb M X (data s)"
proof (induction cs arbitrary: s)
  case Nil
  then have "data (final r) = absorb M [] (data s)" by (auto split: if_splits)
  then show ?case by blast
next
  case (Cons cy cs)
  show ?case
  proof (cases "now s < endTime")
    case False
    then have "data (final r) = absorb M [] (data s)" using Cons.prems by auto
    then show ?thesis by blast
  next
    case True
    show ?thesis
    proof (cases "main_go_cycle M endTime cy s")
      case (Inl err)
      then have "r = Fatal err (log_add (PrintlnErr [] err) (s\<lparr>now := now s + busy cy\<rparr>))"
        using Cons.prems True by simp
      then have "data (final r) = absorb M [] (data s)" by simp
      then show ?thesis by blast
    next
      case (Inr s1)
      then have run: "main_go_loop M endTime cs s1 = Some r" using Cons.prems True by simp
      then obtain X where "data (final r) = absorb M X (data s1)" using Cons.IH by blast
      then have "data (final r) = absorb M (items cy @ X) (data s)"
        using main_go_cycle_data[OF Inr] by (simp add: absorb_append)
      then show ?thesis by blast
    qed
  qed
qed

lemma data_opened [simp]:
  "data ((entry t f)\<lparr>logs := l\<rparr>) = (fmempty, f)" "data (entry t f) = (fmempty, f)"
  by (simp_all add: data_def entry_def)

lemma all_ok_opened:
  "list_all (\<lambda>r. r = WriteOK) (writes e) \<Longrightarrow> stored d p = [] \<Longrightarrow>
   all_ok (opened e d p) \<and> contents (opened e d p) = []"
  by (simp add: all_ok_def opened_def)

lemma main_count_equal:
  assumes ok: "list_all (\<lambda>r. r = WriteOK) (writes e)" and new: "stored d (filePath e) = []"
    and run: "main json_Marshal e d = Some x" and cnt: "counts (snd (final x)) \<noteq> []"
  shows "length (read_records (stored (fst (final x)) (filePath e))) = last (counts (snd (final x)))"
  using main_cases[OF run]
proof
  assume "files (fst (final x)) = files d \<and> counts (snd (final x)) = []
            \<and> (\<exists>err y. x = Fatal err y)"
  then show ?thesis using cnt by simp
next
  assume "\<exists>endTime s' l0 l1. deadline e = Some endTime \<and> counts l0 = [] \<and> counts l1 = []
            \<and> scrape_loop json_Marshal endTime (cycles e)
                 ((entry (clock e + delay e) (opened e d (filePath e)))\<lparr>logs := l0\<rparr>) = Some s'
            \<and> files (fst (final x)) = (files d)(filePath e \<mapsto> contents (outfile s'))
            \<and> snd (final x) = l1 @ logs s' @ [Println ''Finished scrolling and collecting unique posts.'']
            \<and> (\<exists>y. x = Returned y)"
  then obtain endTime s' l0 l1 where c0: "counts l0 = []" and c1: "counts l1 = []"
    and loop: "scrape_loop json_Marshal endTime (cycles e)
                 ((entry (clock e + delay e) (opened e d (filePath e)))\<lparr>logs := l0\<rparr>) = Some s'"
    and fd: "files (fst (final x)) = (files d)(filePath e \<mapsto> contents (outfile s'))"
    and lg: "snd (final x) = l1 @ logs s' @ [Println ''Finished scrolling and collecting unique posts.'']"
    by blast
  have c: "counts (snd (final x)) = counts (logs s')" using lg c1 by (simp add: counts_append)
  have "absorb json_Marshal (snapshots (executed endTime (clock e + delay e) (cycles e)))
          (fmempty, opened e d (filePath e)) = (postSet s', outfile s')"
    using scrape_loop_data[OF loop] by (simp add: data_def)
  then have "length (read_records (contents (outfile s'))) = len (postSet s')"
    using absorb_ok_count all_ok_opened[OF ok new] by blast
  moreover have "last (counts (logs s')) = len (postSet s')"
    using scrape_loop_counts[OF loop] c0 cnt c by auto
  ultimately show ?thesis using stored_written[OF fd] c by simp
qed

lemma main_go_count_equal:
  assumes ok: "list_all (\<lambda>r. r = WriteOK) (writes e)" and new: "stored d (main_go_filePath e) = []"
    and run: "main_go json_Marshal e d = Some x" and cnt: "counts (snd (final x)) \<noteq> []"
  shows "length (read_records (stored (fst (final x)) (main_go_filePath e)))
           = last (counts (snd (final x)))"
  using main_go_cases[OF run]
proof
  assume "files (fst (final x)) = files d \<and> counts (snd (final x)) = []
            \<and> (\<exists>err y. x = Fatal err y)"
  then show ?thesis using cnt by simp
next
  assume "\<exists>endTime r l0. deadline e = Some endTime \<and> counts l0 = []
            \<and> main_go_loop json_Marshal endTime (cycles e)
                 ((entry (clock e + delay e) (opened e d (main_go_filePath e)))\<lparr>logs := l0\<rparr>) = Some r
            \<and> files (fst (final x)) = (files d)(main_go_filePath e \<mapsto> contents (outfile (final r)))
            \<and> counts (snd (final x)) = counts (logs (final r))
            \<and> (\<forall>s'. r = Returned s' \<longrightarrow>
                  x = Returned (fst (final x),
                        logs s' @ [Println ''Finished scrolling and collecting unique posts.'']))
            \<and> (\<forall>err s'. r = Fatal err s' \<longrightarrow> x = Fatal err (fst (final x), logs s'))"
  then obtain endTime r l0 where c0: "counts l0 = []"
    and loop: "main_go_loop json_Marshal endTime (cycles e)
                 ((entry (clock e + delay e) (opened e d (main_go_filePath e)))\<lparr>logs := l0\<rparr>) = Some r"
    and fd: "files (fst (final x)) = (files d)(main_go_filePath e \<mapsto> contents (outfile (final r)))"
    and c: "counts (snd (final x)) = counts (logs (final r))"
    by blast
  obtain X where
    "absorb json_Marshal X (fmempty, opened e d (main_go_filePath e))
       = (postSet (final r), outfile (final r))"
    using main_go_loop_absorbed[OF loop] by (auto simp: data_def)
  then have "length (read_records (contents (outfile (final r)))) = len (postSet (final r))"
    using absorb_ok_count all_ok_opened[OF ok new] by blast
  moreover have "last (counts (logs (final r))) = len (postSet (final r))"
    using main_go_loop_counts[OF loop] c0 cnt c by auto
  ultimately show ?thesis using stored_written[OF fd] c by simp
qed

lemma main_count_within:
  assumes ser: "serializer M" and v: "list_all utf8_ValidString (snapshots (cycles e))"
    and new: "read_records (stored d (filePath e)) = []"
    and run: "main M e d = Some x" and cnt: "counts (snd (final x)) \<noteq> []"
  shows "length (read_records (stored (fst (final x)) (filePath e))) \<le> last (counts (snd (final x)))"
  using main_consistent[OF ser v new run]
proof
  assume "stored (fst (final x)) (filePath e) = stored d (filePath e)"
  then show ?thesis using new by simp
next
  assume "\<exists>s'. consistent s' \<and> stored (fst (final x)) (filePath e) = contents (outfile s')
             \<and> (counts (snd (final x)) \<noteq> [] \<longrightarrow>
                   last (counts (snd (final x))) = len (postSet s'))"
  then show ?thesis using cnt consistent_within by (auto simp: texts_def)
qed

lemma main_go_count_within:
  assumes ser: "serializer M" and v: "list_all utf8_ValidString (snapshots (cycles e))"
    and new: "read_records (stored d (main_go_filePath e)) = []"
    and run: "main_go M e d = Some x" and cnt: "counts (snd (final x)) \<noteq> []"
  shows "length (read_records (stored (fst (final x)) (main_go_filePath e)))
           \<le> last (counts (snd (final x)))"
  using main_go_consistent[OF ser v new run]
proof
  assume "stored (fst (final x)) (main_go_filePath e) = stored d (main_go_filePath e)"
  then show ?thesis using new by simp
next
  assume "\<exists>s'. consistent s'
             \<and> stored (fst (final x)) (main_go_filePath e) = contents (outfile s')
             \<and> (counts (snd (final x)) \<noteq> [] \<longrightarrow>
                   last (counts (snd (final x))) = len (postSet s'))"
  then show ?thesis using cnt consistent_within by (auto simp: texts_def)
qed

text \<open>
  Claim C10, as amended. In a run that opens an output file in which there is no record, the
  store and the file agree at every point: at the entry to the loop, after every item handled
  by \<^verbatim>\<open>processPost\<close> or by the loop body of \<^verbatim>\<open>src/main.go\<close>, whether its append fails
  or not, and after every cycle. In such a state the texts of the records of the file are keys
  of the store, marked \<^verbatim>\<open>true\<close>, and there are at most \<^verbatim>\<open>len(postSet)\<close> records.
  The progress line that ends a cycle reports \<^verbatim>\<open>len(postSet)\<close>. So at the end of every
  run of either program the last count reported is at least the number of records of the output
  file; when no write fails and the file was new or empty, the two are equal, as they are after
  every list of items handled.
\<close>

theorem file_within_store:
  "(read_records (contents (outfile s0)) = [] \<longrightarrow> consistent s0)
   \<and> (consistent s \<longrightarrow>
        set (map Text (read_records (contents (outfile s)))) \<subseteq> fmdom' (postSet s)
      \<and> list_all (index (postSet s)) (map Text (read_records (contents (outfile s))))
      \<and> length (read_records (contents (outfile s))) \<le> len (postSet s))
   \<and> (serializer M \<and> utf8_ValidString c \<and> consistent s \<longrightarrow>
        (\<forall>r s1. processPost M c s = (r, s1) \<longrightarrow> consistent s1)
      \<and> consistent (main_go_item M c s))
   \<and> (serializer M \<and> list_all utf8_ValidString (items cy) \<and> consistent s \<longrightarrow>
        consistent (scrape_cycle M endTime cy s)
      \<and> (\<exists>l t. logs (scrape_cycle M endTime cy s)
                  = l @ [Progress (len (postSet (scrape_cycle M endTime cy s))) t])
      \<and> (\<forall>s1. main_go_cycle M endTime cy s = Inr s1 \<longrightarrow>
             consistent s1 \<and> (\<exists>l t. logs s1 = l @ [Progress (len (postSet s1)) t])))
   \<and> (serializer M \<and> list_all utf8_ValidString (snapshots (cycles e)) \<longrightarrow>
        (\<forall>x. main M e d = Some x \<and> read_records (stored d (filePath e)) = []
               \<and> counts (snd (final x)) \<noteq> [] \<longrightarrow>
           length (read_records (stored (fst (final x)) (filePath e)))
             \<le> last (counts (snd (final x))))
      \<and> (\<forall>x. main_go M e d = Some x \<and> read_records (stored d (main_go_filePath e)) = []
               \<and> counts (snd (final x)) \<noteq> [] \<longrightarrow>
           length (read_records (stored (fst (final x)) (main_go_filePath e)))
             \<le> last (counts (snd (final x)))))
   \<and> (list_all (\<lambda>r. r = WriteOK) (writes e) \<longrightarrow>
        (\<forall>x. main json_Marshal e d = Some x \<and> stored d (filePath e) = []
               \<and> counts (snd (final x)) \<noteq> [] \<longrightarrow>
           length (read_records (stored (fst (final x)) (filePath e)))
             = last (counts (snd (final x))))
      \<and> (\<forall>x. main_go json_Marshal e d = Some x \<and> stored d (main_go_filePath e) = []
               \<and> counts (snd (final x)) \<noteq> [] \<longrightarrow>
           length (read_records (stored (fst (final x)) (main_go_filePath e)))
             = last (counts (snd (final x)))))
   \<and> (all_ok f \<and> contents f = [] \<longrightarrow>
        (\<forall>l. length (read_records (contents (outfile
                  (range_processPost json_Marshal l (entry t f)))))
               = len (postSet (range_processPost json_Marshal l (entry t f)))
             \<and> length (read_records (contents (outfile
                  (main_go_range json_Marshal l (entry t f)))))
               = len (postSet (main_go_range json_Marshal l (entry t f)))))"
proof -
  have A: "read_records (contents (outfile s0)) = [] \<longrightarrow> consistent s0"
    using consistent_no_records by blast
  have B: "consistent s \<longrightarrow>
        set (map Text (read_records (contents (outfile s)))) \<subseteq> fmdom' (postSet s)
      \<and> list_all (index (postSet s)) (map Text (read_records (contents (outfile s))))
      \<and> length (read_records (contents (outfile s))) \<le> len (postSet s)"
    using consistent_within[of s] by (simp add: texts_def consistent_def)
  have C: "serializer M \<and> utf8_ValidString c \<and> consistent s \<longrightarrow>
        (\<forall>r s1. processPost M c s = (r, s1) \<longrightarrow> consistent s1)
      \<and> consistent (main_go_item M c s)"
    using item_step_consistent[OF _ _ processPost_item_step, of M c s]
      item_step_consistent[OF _ _ main_go_item_step, of M c s]
    by blast
  have D: "serializer M \<and> list_all utf8_ValidString (items cy) \<and> consistent s \<longrightarrow>
        consistent (scrape_cycle M endTime cy s)
      \<and> (\<exists>l t. logs (scrape_cycle M endTime cy s)
                  = l @ [Progress (len (postSet (scrape_cycle M endTime cy s))) t])
      \<and> (\<forall>s1. main_go_cycle M endTime cy s = Inr s1 \<longrightarrow>
             consistent s1 \<and> (\<exists>l t. logs s1 = l @ [Progress (len (postSet s1)) t]))"
    using scrape_cycle_consistent[of M cy s endTime] logs_scrape_cycle[of M endTime cy s]
      main_go_cycle_consistent[of M cy s endTime] logs_main_go_cycle[of M endTime cy s]
    by blast
  have E: "serializer M \<and> list_all utf8_ValidString (snapshots (cycles e)) \<longrightarrow>
        (\<forall>x. main M e d = Some x \<and> read_records (stored d (filePath e)) = []
               \<and> counts (snd (final x)) \<noteq> [] \<longrightarrow>
           length (read_records (stored (fst (final x)) (filePath e)))
             \<le> last (counts (snd (final x))))
      \<and> (\<forall>x. main_go M e d = Some x \<and> read_records (stored d (main_go_filePath e)) = []
               \<and> counts (snd (final x)) \<noteq> [] \<longrightarrow>
           length (read_records (stored (fst (final x)) (main_go_filePath e)))
             \<le> last (counts (snd (final x))))"
    using main_count_within[of M e d] main_go_count_within[of M e d] by blast
  have F: "list_all (\<lambda>r. r = WriteOK) (writes e) \<longrightarrow>
        (\<forall>x. main json_Marshal e d = Some x \<and> stored d (filePath e) = []
               \<and> counts (snd (final x)) \<noteq> [] \<longrightarrow>
           length (read_records (stored (fst (final x)) (filePath e)))
             = last (counts (snd (final x))))
      \<and> (\<forall>x. main_go json_Marshal e d = Some x \<and> stored d (main_go_filePath e) = []
               \<and> counts (snd (final x)) \<noteq> [] \<longrightarrow>
           length (read_records (stored (fst (final x)) (main_go_filePath e)))
             = last (counts (snd (final x))))"
    using main_count_equal[of e d] main_go_count_equal[of e d] by blast
  have eq3: "length (read_records (contents (outfile (range_processPost json_Marshal l (entry t f)))))
               = len (postSet (range_processPost json_Marshal l (entry t f)))"
    if "all_ok f" "contents f = []" for l
  proof -
    have "absorb json_Marshal l (fmempty, f)
            = (postSet (range_processPost json_Marshal l (entry t f)),
               outfile (range_processPost json_Marshal l (entry t f)))"
      using range_processPost_data[of json_Marshal l "entry t f"] unfolding data_def entry_data
      by simp
    then show ?thesis using absorb_ok_count[OF that(1,2)] by simp
  qed
  have eq4: "length (read_records (contents (outfile (main_go_range json_Marshal l (entry t f)))))
               = len (postSet (main_go_range json_Marshal l (entry t f)))"
    if "all_ok f" "contents f = []" for l
  proof -
    have "absorb json_Marshal l (fmempty, f)
            = (postSet (main_go_range json_Marshal l (entry t f)),
               outfile (main_go_range json_Marshal l (entry t f)))"
      using main_go_range_data[of json_Marshal l "entry t f"] unfolding data_def entry_data
      by simp
    then show ?thesis using absorb_ok_count[OF that(1,2)] by simp
  qed
  have G: "all_ok f \<and> contents f = [] \<longrightarrow>
        (\<forall>l. length (read_records (contents (outfile
                  (range_processPost json_Marshal l (entry t f)))))
               = len (postSet (range_processPost json_Marshal l (entry t f)))
             \<and> length (read_records (contents (outfile
                  (main_go_range json_Marshal l (entry t f)))))
               = len (postSet (main_go_range json_Marshal l (entry t f))))"
    using eq3 eq4 by blast
  show ?thesis using A B C D E F G by (intro conjI)
qed

theorem file_within_store_witness:
  "serializer json_Marshal
   \<and> list_all utf8_ValidString (snapshots (cycles (failing\<lparr>cycles := scenario\<rparr>)))
   \<and> read_records (stored blank (filePath (failing\<lparr>cycles := scenario\<rparr>))) = []
   \<and> (case main json_Marshal (failing\<lparr>cycles := scenario\<rparr>) blank of
        Some (Returned (d, l)) \<Rightarrow>
          counts l = [2, 3, 3]
          \<and> stored d (filePath (failing\<lparr>cycles := scenario\<rparr>))
               = json_bytes \<lparr>Text = ''A''\<rparr> @ line ''B'' @ line ''C''
          \<and> length (read_records (stored d (filePath (failing\<lparr>cycles := scenario\<rparr>)))) \<le> 3
      | _ \<Rightarrow> False)
   \<and> list_all (\<lambda>r. r = WriteOK) (writes (healthy\<lparr>cycles := scenario\<rparr>))
   \<and> stored blank (main_go_filePath (healthy\<lparr>cycles := scenario\<rparr>)) = []
   \<and> (case main_go json_Marshal (healthy\<lparr>cycles := scenario\<rparr>) blank of
        Some (Returned (d, l)) \<Rightarrow>
          counts l = [2, 3, 3]
          \<and> length (read_records (stored d (main_go_filePath (healthy\<lparr>cycles := scenario\<rparr>)))) = 3
      | _ \<Rightarrow> False)"
proof -
  let ?e = "failing\<lparr>cycles := scenario\<rparr>"
  let ?h = "healthy\<lparr>cycles := scenario\<rparr>"
  have v: "list_all utf8_ValidString (snapshots (cycles ?e))"
    "list_all utf8_ValidString (snapshots (cycles ?h))"
    using scenario_valid by simp_all
  have p: "filePath ?e = ''posts/durov_posts_20240101120000.json''"
    "main_go_filePath ?h = ''posts/durov_posts_20240101120000.json''"
    by (simp_all add: filePath_def main_go_filePath_def failing_def run_defs)
  have n: "read_records (stored blank (filePath ?e)) = []" "stored blank (main_go_filePath ?h) = []"
    by (simp_all add: stored_def blank_def read_records_def file_lines_def List.map_filter_simps)
  have ok: "list_all (\<lambda>r. r = WriteOK) (writes ?h)" by (simp add: healthy_def)
  have "\<exists>d l. main json_Marshal ?e blank = Some (Returned (d, l)) \<and> counts l = [2, 3, 3]
          \<and> stored d ''posts/durov_posts_20240101120000.json''
               = json_bytes \<lparr>Text = ''A''\<rparr> @ line ''B'' @ line ''C''"
    by (simp add: run_defs failing_def scenario_def stored_def fcard_finsert_if)
  then obtain d1 l1 where r1: "main json_Marshal ?e blank = Some (Returned (d1, l1))"
    and c1: "counts l1 = [2, 3, 3]"
    and f1: "stored d1 (filePath ?e) = json_bytes \<lparr>Text = ''A''\<rparr> @ line ''B'' @ line ''C''"
    unfolding p by blast
  have "\<exists>d l. main_go json_Marshal ?h blank = Some (Returned (d, l)) \<and> counts l = [2, 3, 3]"
    by (simp add: run_defs scenario_def fcard_finsert_if)
  then obtain d2 l2 where r2: "main_go json_Marshal ?h blank = Some (Returned (d2, l2))"
    and c2: "counts l2 = [2, 3, 3]"
    by blast
  have "length (read_records (stored (fst (final (Returned (d1, l1)))) (filePath ?e)))
          \<le> last (counts (snd (final (Returned (d1, l1)))))"
    using file_within_store[where M = json_Marshal and e = ?e and d = blank]
      serializer_json v(1) n(1) r1 c1 by (simp del: One_nat_def)
  then have w1: "length (read_records (stored d1 (filePath ?e))) \<le> 3" using c1 by simp
  have "length (read_records (stored (fst (final (Returned (d2, l2)))) (main_go_filePath ?h)))
          = last (counts (snd (final (Returned (d2, l2)))))"
    using file_within_store[where e = ?h and d = blank] ok n(2) r2 c2 by (simp del: One_nat_def)
  then have w2: "length (read_records (stored d2 (main_go_filePath ?h))) = 3" using c2 by simp
  show ?thesis using serializer_json v(1) n ok r1 c1 f1 w1 r2 c2 w2 by simp
qed

text \<open>Claim C10 as stated fails for a run that opens a file in which there are records: the
  counts reported are 2, 3 and 3, and the file ends with four records.\<close>

theorem reused_file_exceeds_count:
  "(case main json_Marshal (healthy\<lparr>cycles := scenario\<rparr>) reused of
      Some (Returned (d, l)) \<Rightarrow>
        counts l = [2, 3, 3]
        \<and> length (read_records (stored d ''posts/durov_posts_20240101120000.json'')) = 4
    | _ \<Rightarrow> False)
   \<and> (case main_go json_Marshal (healthy\<lparr>cycles := scenario\<rparr>) reused of
      Some (Returned (d, l)) \<Rightarrow>
        counts l = [2, 3, 3]
        \<and> length (read_records (stored d ''posts/durov_posts_20240101120000.json'')) = 4
    | _ \<Rightarrow> False)"
proof -
  let ?h = "healthy\<lparr>cycles := scenario\<rparr>"
  let ?p = "''posts/durov_posts_20240101120000.json''"
  have "read_records (concat (map line [''A'', ''A'', ''B'', ''C'']))
          = map (\<lambda>t. \<lparr>Text = t\<rparr>) [''A'', ''A'', ''B'', ''C'']"
    by (rule read_records_valid) simp
  then have four: "length (read_records (line ''A'' @ line ''A'' @ line ''B'' @ line ''C'')) = 4"
    by simp
  have "\<exists>d l. main json_Marshal ?h reused = Some (Returned (d, l)) \<and> counts l = [2, 3, 3]
          \<and> stored d ?p = line ''A'' @ line ''A'' @ line ''B'' @ line ''C''"
    by (simp add: run_defs scenario_def reused_def stored_def fcard_finsert_if)
  then obtain d1 l1 where 1: "main json_Marshal ?h reused = Some (Returned (d1, l1))"
    "counts l1 = [2, 3, 3]" "stored d1 ?p = line ''A'' @ line ''A'' @ line ''B'' @ line ''C''"
    by blast
  have "\<exists>d l. main_go json_Marshal ?h reused = Some (Returned (d, l)) \<and> counts l = [2, 3, 3]
          \<and> stored d ?p = line ''A'' @ line ''A'' @ line ''B'' @ line ''C''"
    by (simp add: run_defs scenario_def reused_def stored_def fcard_finsert_if)
  then obtain d2 l2 where 2: "main_go json_Marshal ?h reused = Some (Returned (d2, l2))"
    "counts l2 = [2, 3, 3]" "stored d2 ?p = line ''A'' @ line ''A'' @ line ''B'' @ line ''C''"
    by blast
  show ?thesis using 1 2 four by simp
qed

section \<open>The order of the records\<close>

lemma append_records:
  assumes ser: "serializer M" and v: "utf8_ValidString c"
  shows "map Text (read_records (contents (snd (writePostToFile M \<lparr>Text = c\<rparr> f))))
           = map Text (read_records (contents f))
       \<or> map Text (read_records (contents (snd (writePostToFile M \<lparr>Text = c\<rparr> f))))
           = map Text (read_records (contents f)) @ [c]"
proof -
  let ?s = "\<lparr>now = 0, postSet = fmempty, outfile = f, logs = []\<rparr>"
  let ?s' = "\<lparr>now = 0, postSet = fmupd c True fmempty,
              outfile = snd (writePostToFile M \<lparr>Text = c\<rparr> f), logs = []\<rparr>"
  have "item_step M c ?s ?s'" by (simp add: item_step_def index_def)
  from item_step_texts[OF ser v this] show ?thesis by (auto simp: texts_def)
qed

text \<open>Whatever fails, the records that a list of items adds to the file are new items of the
  list, in the order of their first appearance.\<close>

lemma absorb_subseq:
  assumes "serializer M" and "list_all utf8_ValidString l"
    and "absorb M l (m, f) = (m', f')"
  shows "\<exists>ys. map Text (read_records (contents f')) = map Text (read_records (contents f)) @ ys
           \<and> subseq ys (fresh_of {k. index m k} l)"
  using assms(2,3)
proof (induction l arbitrary: m f)
  case Nil
  then show ?case by simp
next
  case (Cons c l)
  have v: "utf8_ValidString c" and vl: "list_all utf8_ValidString l" using Cons.prems(1) by simp_all
  show ?case
  proof (cases "index m c")
    case True
    then have "absorb M l (m, f) = (m', f')" using Cons.prems(2) by (simp add: item_data_def)
    from Cons.IH[OF vl this] show ?thesis using True by simp
  next
    case False
    let ?f1 = "snd (writePostToFile M \<lparr>Text = c\<rparr> f)"
    have run: "absorb M l (fmupd c True m, ?f1) = (m', f')"
      using Cons.prems(2) False by (simp add: item_data_def)
    have idx: "{k. index (fmupd c True m) k} = insert c {k. index m k}"
      by (auto simp: index_fmupd)
    from Cons.IH[OF vl run] obtain ys where
      ys: "map Text (read_records (contents f')) = map Text (read_records (contents ?f1)) @ ys"
      and sub: "subseq ys (fresh_of (insert c {k. index m k}) l)"
      unfolding idx by blast
    from append_records[OF assms(1) v, of f] show ?thesis
    proof
      assume "map Text (read_records (contents ?f1)) = map Text (read_records (contents f))"
      then have "map Text (read_records (contents f')) = map Text (read_records (contents f)) @ ys"
        using ys by simp
      moreover have "subseq ys (fresh_of {k. index m k} (c # l))"
        using sub False by (simp add: list_emb_Cons)
      ultimately show ?thesis by blast
    next
      assume "map Text (read_records (contents ?f1)) = map Text (read_records (contents f)) @ [c]"
      then have "map Text (read_records (contents f'))
                   = map Text (read_records (contents f)) @ (c # ys)"
        using ys by simp
      moreover have "subseq (c # ys) (fresh_of {k. index m k} (c # l))"
        using sub False by simp
      ultimately show ?thesis by blast
    qed
  qed
qed

lemma absorb_first_seen:
  assumes "serializer M" and "list_all utf8_ValidString l"
    and "read_records (contents f) = []" and "absorb M l (fmempty, f) = (m', f')"
  shows "subseq (map Text (read_records (contents f'))) (first_seen l)"
  using absorb_subseq[OF assms(1,2,4)] assms(3) by (auto simp: index_fmempty fresh_of_empty)

lemma absorb_all_ok:
  assumes "all_ok f" and "absorb json_Marshal l (fmempty, f) = (m', f')"
  shows "contents f' = contents f @ concat (map line (first_seen l))"
  using absorb_ok[OF assms] by (simp add: index_fmempty fresh_of_empty)

lemma all_ok_writes: "list_all (\<lambda>r. r = WriteOK) (writes e) \<Longrightarrow> all_ok (opened e d p)"
  by (simp add: all_ok_def opened_def)

lemma contents_opened [simp]: "contents (opened e d p) = stored d p"
  by (simp add: opened_def)

text \<open>The items that the loop of a run of \<^verbatim>\<open>part_000\<close> handles are the ones of the cycles
  that the clock lets it run; the same for a run of \<^verbatim>\<open>src/main.go\<close> that ends normally.\<close>

lemma main_returned:
  assumes run: "main M e d = Some (Returned (d', l))"
  shows "\<exists>m' f'. absorb M (seen e) (fmempty, opened e d (filePath e)) = (m', f')
           \<and> stored d' (filePath e) = contents f'"
  using main_cases[OF run]
proof
  assume "files (fst (final (Returned (d', l)))) = files d
            \<and> counts (snd (final (Returned (d', l)))) = []
            \<and> (\<exists>err y. Returned (d', l) = Fatal err y)"
  then show ?thesis by simp
next
  assume "\<exists>endTime s' l0 l1. deadline e = Some endTime \<and> counts l0 = [] \<and> counts l1 = []
            \<and> scrape_loop M endTime (cycles e)
                 ((entry (clock e + delay e) (opened e d (filePath e)))\<lparr>logs := l0\<rparr>) = Some s'
            \<and> files (fst (final (Returned (d', l))))
                  = (files d)(filePath e \<mapsto> contents (outfile s'))
            \<and> snd (final (Returned (d', l)))
                  = l1 @ logs s' @ [Println ''Finished scrolling and collecting unique posts.'']
            \<and> (\<exists>y. Returned (d', l) = Returned y)"
  then obtain endTime s' l0 where dl: "deadline e = Some endTime"
    and loop: "scrape_loop M endTime (cycles e)
                 ((entry (clock e + delay e) (opened e d (filePath e)))\<lparr>logs := l0\<rparr>) = Some s'"
    and fd: "files d' = (files d)(filePath e \<mapsto> contents (outfile s'))"
    by auto
  have "absorb M (seen e) (fmempty, opened e d (filePath e)) = (postSet s', outfile s')"
    using scrape_loop_data[OF loop] dl by (simp add: seen_def data_def)
  then show ?thesis using stored_written[OF fd] by simp
qed

lemma main_go_returned:
  assumes run: "main_go M e d = Some (Returned (d', l))"
  shows "\<exists>m' f'. absorb M (seen e) (fmempty, opened e d (main_go_filePath e)) = (m', f')
           \<and> stored d' (main_go_filePath e) = contents f'"
  using main_go_cases[OF run]
proof
  assume "files (fst (final (Returned (d', l)))) = files d
            \<and> counts (snd (final (Returned (d', l)))) = []
            \<and> (\<exists>err y. Returned (d', l) = Fatal err y)"
  then show ?thesis by simp
next
  assume "\<exists>endTime r l0. deadline e = Some endTime \<and> counts l0 = []
            \<and> main_go_loop M endTime (cycles e)
                 ((entry (clock e + delay e) (opened e d (main_go_filePath e)))\<lparr>logs := l0\<rparr>) = Some r
            \<and> files (fst (final (Returned (d', l))))
                  = (files d)(main_go_filePath e \<mapsto> contents (outfile (final r)))
            \<and> counts (snd (final (Returned (d', l)))) = counts (logs (final r))
            \<and> (\<forall>s'. r = Returned s' \<longrightarrow>
                  Returned (d', l) = Returned (fst (final (Returned (d', l))),
                        logs s' @ [Println ''Finished scrolling and collecting unique posts.'']))
            \<and> (\<forall>err s'. r = Fatal err s' \<longrightarrow>
                  Returned (d', l) = Fatal err (fst (final (Returned (d', l))), logs s'))"
  then obtain endTime r l0 where dl: "deadline e = Some endTime"
    and loop: "main_go_loop M endTime (cycles e)
                 ((entry (clock e + delay e) (opened e d (main_go_filePath e)))\<lparr>logs := l0\<rparr>) = Some r"
    and fd: "files d' = (files d)(main_go_filePath e \<mapsto> contents (outfile (final r)))"
    and nf: "\<forall>err s'. r \<noteq> Fatal err s'"
    by auto
  obtain s' where r: "r = Returned s'" using nf by (cases r) auto
  have "absorb M (seen e) (fmempty, opened e d (main_go_filePath e)) = (postSet s', outfile s')"
    using main_go_loop_data[OF loop[unfolded r]] dl by (simp add: seen_def data_def)
  then show ?thesis using stored_written[OF fd] r by simp
qed

lemma executed_subset: "set (executed endTime t cs) \<subseteq> set cs"
  by (induction cs arbitrary: t) auto

lemma seen_valid:
  "list_all utf8_ValidString (snapshots (cycles e)) \<Longrightarrow> list_all utf8_ValidString (seen e)"
  using executed_subset
  by (fastforce simp: seen_def snapshots_def list_all_iff split: option.splits)

text \<open>
  Claim C3, as amended. When no write to the file fails, a run of either program that ends
  normally leaves in the output file what the file held when it was opened, nothing for a new
  file, followed by one line for each text of the snapshots of the cycles that ran, in the
  order in which the texts were first seen: every text of a snapshot is there exactly once, and
  a text stands before another one if and only if it was seen first. Each line is the JSON
  object of its text and a newline and, for valid UTF-8, reads back as that text. The same
  holds after every list of items handled from the entry to the loop. In the scenario of the
  specification the file is the three lines for A, B and C. When writes fail, the records that
  a file without records gets are still texts of the snapshots in first-seen order, each at
  most once, but not all of them.
\<close>

theorem first_seen_order:
  "(list_all (\<lambda>r. r = WriteOK) (writes e) \<longrightarrow>
      (\<forall>d' l. main json_Marshal e d = Some (Returned (d', l)) \<longrightarrow>
         stored d' (filePath e)
           = stored d (filePath e) @ concat (map line (first_seen (seen e))))
      \<and> (\<forall>d' l. main_go json_Marshal e d = Some (Returned (d', l)) \<longrightarrow>
         stored d' (main_go_filePath e)
           = stored d (main_go_filePath e) @ concat (map line (first_seen (seen e)))))
   \<and> (all_ok f \<longrightarrow>
        contents (outfile (range_processPost json_Marshal X (entry t f)))
          = contents f @ concat (map line (first_seen X))
      \<and> contents (outfile (main_go_range json_Marshal X (entry t f)))
          = contents f @ concat (map line (first_seen X)))
   \<and> distinct (first_seen X) \<and> set (first_seen X) = set X
   \<and> sorted_wrt (\<lambda>a b. first_index X a < first_index X b) (first_seen X)
   \<and> file_lines (concat (map line X)) = map (\<lambda>t. json_bytes \<lparr>Text = t\<rparr>) X
   \<and> (list_all utf8_ValidString X \<longrightarrow>
        read_records (concat (map line X)) = map (\<lambda>t. \<lparr>Text = t\<rparr>) X)
   \<and> (serializer M \<and> list_all utf8_ValidString (snapshots (cycles e)) \<longrightarrow>
        (\<forall>d' l. main M e d = Some (Returned (d', l))
                \<and> read_records (stored d (filePath e)) = [] \<longrightarrow>
           subseq (map Text (read_records (stored d' (filePath e)))) (first_seen (seen e)))
      \<and> (\<forall>d' l. main_go M e d = Some (Returned (d', l))
                \<and> read_records (stored d (main_go_filePath e)) = [] \<longrightarrow>
           subseq (map Text (read_records (stored d' (main_go_filePath e))))
             (first_seen (seen e))))"
proof -
  have A1: "stored d' (filePath e)
           = stored d (filePath e) @ concat (map line (first_seen (seen e)))"
    if ok: "list_all (\<lambda>r. r = WriteOK) (writes e)"
      and run: "main json_Marshal e d = Some (Returned (d', l))" for d' l
  proof -
    obtain m' f' where
      a: "absorb json_Marshal (seen e) (fmempty, opened e d (filePath e)) = (m', f')"
      and c: "stored d' (filePath e) = contents f'"
      using main_returned[OF run] by blast
    show ?thesis using absorb_all_ok[OF all_ok_writes[OF ok] a] c by simp
  qed
  have A2: "stored d' (main_go_filePath e)
           = stored d (main_go_filePath e) @ concat (map line (first_seen (seen e)))"
    if ok: "list_all (\<lambda>r. r = WriteOK) (writes e)"
      and run: "main_go json_Marshal e d = Some (Returned (d', l))" for d' l
  proof -
    obtain m' f' where
      a: "absorb json_Marshal (seen e) (fmempty, opened e d (main_go_filePath e)) = (m', f')"
      and c: "stored d' (main_go_filePath e) = contents f'"
      using main_go_returned[OF run] by blast
    show ?thesis using absorb_all_ok[OF all_ok_writes[OF ok] a] c by simp
  qed
  have B1: "contents (outfile (range_processPost json_Marshal X (entry t f)))
          = contents f @ concat (map line (first_seen X))" if ok: "all_ok f"
  proof -
    have "absorb json_Marshal X (fmempty, f)
            = (postSet (range_processPost json_Marshal X (entry t f)),
               outfile (range_processPost json_Marshal X (entry t f)))"
      using range_processPost_data[of json_Marshal X "entry t f"] by (simp add: data_def entry_def)
    from absorb_all_ok[OF ok this] show ?thesis .
  qed
  have B2: "contents (outfile (main_go_range json_Marshal X (entry t f)))
          = contents f @ concat (map line (first_seen X))" if ok: "all_ok f"
  proof -
    have "absorb json_Marshal X (fmempty, f)
            = (postSet (main_go_range json_Marshal X (entry t f)),
               outfile (main_go_range json_Marshal X (entry t f)))"
      using main_go_range_data[of json_Marshal X "entry t f"] by (simp add: data_def entry_def)
    from absorb_all_ok[OF ok this] show ?thesis .
  qed
  have C1: "subseq (map Text (read_records (stored d' (filePath e)))) (first_seen (seen e))"
    if ser: "serializer M" and v: "list_all utf8_ValidString (snapshots (cycles e))"
      and run: "main M e d = Some (Returned (d', l))"
      and new: "read_records (stored d (filePath e)) = []" for d' l
  proof -
    obtain m' f' where
      a: "absorb M (seen e) (fmempty, opened e d (filePath e)) = (m', f')"
      and c: "stored d' (filePath e) = contents f'"
      using main_returned[OF run] by blast
    show ?thesis using absorb_first_seen[OF ser seen_valid[OF v] _ a] new c by simp
  qed
  have C2: "subseq (map Text (read_records (stored d' (main_go_filePath e))))
              (first_seen (seen e))"
    if ser: "serializer M" and v: "list_all utf8_ValidString (snapshots (cycles e))"
      and run: "main_go M e d = Some (Returned (d', l))"
      and new: "read_records (stored d (main_go_filePath e)) = []" for d' l
  proof -
    obtain m' f' where
      a: "absorb M (seen e) (fmempty, opened e d (main_go_filePath e)) = (m', f')"
      and c: "stored d' (main_go_filePath e) = contents f'"
      using main_go_returned[OF run] by blast
    show ?thesis using absorb_first_seen[OF ser seen_valid[OF v] _ a] new c by simp
  qed
  show ?thesis
    using A1 A2 B1 B2 C1 C2 first_seen_distinct[of X] first_seen_set[of X]
      first_seen_sorted[of X] file_lines_records[of X] read_records_valid[of X]
    by blast
qed

lemma json_bytes_nonempty: "json_bytes p \<noteq> []"
  by (simp add: json_bytes_def header_def)

text \<open>A line that was left without its newline runs into the next one: the two objects make
  one line, which is no record.\<close>

lemma fused_records:
  assumes "utf8_ValidString c"
  shows "file_lines (json_bytes \<lparr>Text = a\<rparr> @ line b @ line c)
           = [json_bytes \<lparr>Text = a\<rparr> @ json_bytes \<lparr>Text = b\<rparr>, json_bytes \<lparr>Text = c\<rparr>]"
    and "read_records (json_bytes \<lparr>Text = a\<rparr> @ line b @ line c) = [\<lparr>Text = c\<rparr>]"
proof -
  let ?ab = "json_bytes \<lparr>Text = a\<rparr> @ json_bytes \<lparr>Text = b\<rparr>"
  let ?c = "json_bytes \<lparr>Text = c\<rparr>"
  have nn: "newline \<notin> set ?ab" "newline \<notin> set ?c"
    using json_bytes_no_newline by simp_all
  have shape: "json_bytes \<lparr>Text = a\<rparr> @ line b @ line c = ([] @ ?ab @ [newline]) @ ?c @ [newline]"
    by (simp add: line_def)
  have l1: "file_lines ([] @ ?ab @ [newline]) = [?ab]"
    unfolding file_lines_line[OF nn(1)] by (simp add: file_lines_def pending_def)
  have p1: "pending ([] @ ?ab @ [newline]) = []" by (rule pending_line)
  show "file_lines (json_bytes \<lparr>Text = a\<rparr> @ line b @ line c) = [?ab, ?c]"
    unfolding shape file_lines_line[OF nn(2)] l1 p1 by simp
  then show "read_records (json_bytes \<lparr>Text = a\<rparr> @ line b @ line c) = [\<lparr>Text = c\<rparr>]"
    using parse_record_garbage[OF json_bytes_nonempty, of "\<lparr>Text = a\<rparr>" "\<lparr>Text = b\<rparr>"]
      parse_record_json[of "\<lparr>Text = c\<rparr>"] assms
    by (simp add: read_records_def List.map_filter_simps)
qed

lemmas scenario_defs = scenario_def seen_def deadline_def snapshots_def items_def duration_def
  failing_def

theorem first_seen_order_witness:
  "list_all (\<lambda>r. r = WriteOK) (writes (healthy\<lparr>cycles := scenario\<rparr>))
   \<and> seen (healthy\<lparr>cycles := scenario\<rparr>) = [''A'', ''B'', ''B'', ''C'', ''C'']
   \<and> first_seen (seen (healthy\<lparr>cycles := scenario\<rparr>)) = [''A'', ''B'', ''C'']
   \<and> filePath (healthy\<lparr>cycles := scenario\<rparr>) = ''posts/durov_posts_20240101120000.json''
   \<and> main_go_filePath (healthy\<lparr>cycles := scenario\<rparr>)
        = ''posts/durov_posts_20240101120000.json''
   \<and> (case main json_Marshal (healthy\<lparr>cycles := scenario\<rparr>) blank of
        Some (Returned (d, l)) \<Rightarrow>
          stored d ''posts/durov_posts_20240101120000.json''
            = line ''A'' @ line ''B'' @ line ''C''
      | _ \<Rightarrow> False)
   \<and> (case main_go json_Marshal (healthy\<lparr>cycles := scenario\<rparr>) blank of
        Some (Returned (d, l)) \<Rightarrow>
          stored d ''posts/durov_posts_20240101120000.json''
            = line ''A'' @ line ''B'' @ line ''C''
      | _ \<Rightarrow> False)
   \<and> line ''A'' = CHR ''{'' # CHR 0x22 # ''text'' @ CHR 0x22 # '':'' @ CHR 0x22 # ''A''
                  @ CHR 0x22 # ''}'' @ [CHR 0x0A]
   \<and> read_records (line ''A'' @ line ''B'' @ line ''C'')
     = [\<lparr>Text = ''A''\<rparr>, \<lparr>Text = ''B''\<rparr>, \<lparr>Text = ''C''\<rparr>]
   \<and> serializer json_Marshal
   \<and> list_all utf8_ValidString (snapshots (cycles (failing\<lparr>cycles := scenario\<rparr>)))
   \<and> read_records (stored blank (filePath (failing\<lparr>cycles := scenario\<rparr>))) = []
   \<and> (case main json_Marshal (failing\<lparr>cycles := scenario\<rparr>) blank of
        Some (Returned (d, l)) \<Rightarrow>
          subseq (map Text (read_records (stored d (filePath (failing\<lparr>cycles := scenario\<rparr>)))))
            [''A'', ''B'', ''C'']
      | _ \<Rightarrow> False)"
proof -
  let ?h = "healthy\<lparr>cycles := scenario\<rparr>"
  let ?e = "failing\<lparr>cycles := scenario\<rparr>"
  let ?p = "''posts/durov_posts_20240101120000.json''"
  have ok: "list_all (\<lambda>r. r = WriteOK) (writes ?h)" by (simp add: healthy_def)
  have sn: "seen ?h = [''A'', ''B'', ''B'', ''C'', ''C'']" "seen ?e = [''A'', ''B'', ''B'', ''C'', ''C'']"
    by (simp_all add: scenario_defs healthy_def minute_def)
  have fs: "first_seen [''A'', ''B'', ''B'', ''C'', ''C''] = [''A'', ''B'', ''C'']" by simp
  have p: "filePath ?h = ?p" "main_go_filePath ?h = ?p" "filePath ?e = ?p"
    by (simp_all add: filePath_def main_go_filePath_def failing_def run_defs)
  have b: "stored blank ?p = []" by (simp add: stored_def blank_def)
  have la: "line ''A'' = CHR ''{'' # CHR 0x22 # ''text'' @ CHR 0x22 # '':'' @ CHR 0x22 # ''A''
                  @ CHR 0x22 # ''}'' @ [CHR 0x0A]"
    by (simp add: line_def json_bytes_def header_def appendString_def htmlSafe_def dquote_def
          bslash_def newline_def)
  have "\<exists>d l. main json_Marshal ?h blank = Some (Returned (d, l))"
    by (simp add: run_defs scenario_def)
  then obtain d1 l1 where r1: "main json_Marshal ?h blank = Some (Returned (d1, l1))" by blast
  have "\<exists>d l. main_go json_Marshal ?h blank = Some (Returned (d, l))"
    by (simp add: run_defs scenario_def)
  then obtain d2 l2 where r2: "main_go json_Marshal ?h blank = Some (Returned (d2, l2))" by blast
  have "\<exists>d l. main json_Marshal ?e blank = Some (Returned (d, l))"
    by (simp add: run_defs failing_def scenario_def)
  then obtain d3 l3 where r3: "main json_Marshal ?e blank = Some (Returned (d3, l3))" by blast
  have v: "list_all utf8_ValidString [''A'', ''B'', ''C'']" by simp
  have ve: "list_all utf8_ValidString (snapshots (cycles ?e))" using scenario_valid by simp
  have ne: "read_records (stored blank (filePath ?e)) = []"
    unfolding p b by (simp add: read_records_def file_lines_def List.map_filter_simps)
  note T = first_seen_order[where e = ?h and d = blank and X = "[''A'', ''B'', ''C'']"]
  have c1: "stored d1 ?p = line ''A'' @ line ''B'' @ line ''C''"
    using T ok r1 unfolding p sn fs b by simp
  have c2: "stored d2 ?p = line ''A'' @ line ''B'' @ line ''C''"
    using T ok r2 unfolding p sn fs b by simp
  have rr: "read_records (line ''A'' @ line ''B'' @ line ''C'')
     = [\<lparr>Text = ''A''\<rparr>, \<lparr>Text = ''B''\<rparr>, \<lparr>Text = ''C''\<rparr>]"
    using T v by simp
  have "subseq (map Text (read_records (stored d3 (filePath ?e)))) (first_seen (seen ?e))"
    using first_seen_order[where e = ?e and d = blank and M = json_Marshal]
      serializer_json ve r3 ne by blast
  then have c3: "subseq (map Text (read_records (stored d3 (filePath ?e)))) [''A'', ''B'', ''C'']"
    unfolding sn fs .
  show ?thesis
    using ok sn(1) fs p(1,2) r1 c1 r2 c2 la rr serializer_json ve ne r3 c3 by simp
qed

text \<open>Claim C3 as stated fails when a write fails, and when the file that is opened holds
  records. With a newline that is not written, the items first seen are A, B and C; the file
  holds the objects of A and B on one line, then the line of C, and its only record is C: B,
  whose append returned no error, has none. On a disk where the output file holds the record of
  A, the file ends with the records A, A, B and C.\<close>

theorem first_seen_order_fails:
  "first_seen (seen (failing\<lparr>cycles := scenario\<rparr>)) = [''A'', ''B'', ''C'']
   \<and> (case main json_Marshal (failing\<lparr>cycles := scenario\<rparr>) blank of
        Some (Returned (d, l)) \<Rightarrow>
          stored d ''posts/durov_posts_20240101120000.json''
            = json_bytes \<lparr>Text = ''A''\<rparr> @ line ''B'' @ line ''C''
      | _ \<Rightarrow> False)
   \<and> (case main_go json_Marshal (failing\<lparr>cycles := scenario\<rparr>) blank of
        Some (Returned (d, l)) \<Rightarrow>
          stored d ''posts/durov_posts_20240101120000.json''
            = json_bytes \<lparr>Text = ''A''\<rparr> @ line ''B'' @ line ''C''
      | _ \<Rightarrow> False)
   \<and> file_lines (json_bytes \<lparr>Text = ''A''\<rparr> @ line ''B'' @ line ''C'')
        = [json_bytes \<lparr>Text = ''A''\<rparr> @ json_bytes \<lparr>Text = ''B''\<rparr>, json_bytes \<lparr>Text = ''C''\<rparr>]
   \<and> read_records (json_bytes \<lparr>Text = ''A''\<rparr> @ line ''B'' @ line ''C'') = [\<lparr>Text = ''C''\<rparr>]
   \<and> first_seen (seen (healthy\<lparr>cycles := scenario\<rparr>)) = [''A'', ''B'', ''C'']
   \<and> (case main json_Marshal (healthy\<lparr>cycles := scenario\<rparr>) reused of
        Some (Returned (d, l)) \<Rightarrow>
          stored d ''posts/durov_posts_20240101120000.json''
            = line ''A'' @ line ''A'' @ line ''B'' @ line ''C''
      | _ \<Rightarrow> False)
   \<and> map Text (read_records (line ''A'' @ line ''A'' @ line ''B'' @ line ''C''))
        = [''A'', ''A'', ''B'', ''C'']"
proof -
  let ?h = "healthy\<lparr>cycles := scenario\<rparr>"
  let ?e = "failing\<lparr>cycles := scenario\<rparr>"
  have sn: "first_seen (seen ?e) = [''A'', ''B'', ''C'']" "first_seen (seen ?h) = [''A'', ''B'', ''C'']"
    by (simp_all add: scenario_defs healthy_def minute_def)
  have 1: "(case main json_Marshal ?e blank of
        Some (Returned (d, l)) \<Rightarrow>
          stored d ''posts/durov_posts_20240101120000.json''
            = json_bytes \<lparr>Text = ''A''\<rparr> @ line ''B'' @ line ''C''
      | _ \<Rightarrow> False)"
    by (simp add: run_defs failing_def scenario_def stored_def)
  have 2: "(case main_go json_Marshal ?e blank of
        Some (Returned (d, l)) \<Rightarrow>
          stored d ''posts/durov_posts_20240101120000.json''
            = json_bytes \<lparr>Text = ''A''\<rparr> @ line ''B'' @ line ''C''
      | _ \<Rightarrow> False)"
    by (simp add: run_defs failing_def scenario_def stored_def)
  have 3: "(case main json_Marshal ?h reused of
        Some (Returned (d, l)) \<Rightarrow>
          stored d ''posts/durov_posts_20240101120000.json''
            = line ''A'' @ line ''A'' @ line ''B'' @ line ''C''
      | _ \<Rightarrow> False)"
    by (simp add: run_defs scenario_def reused_def stored_def)
  have "read_records (concat (map line [''A'', ''A'', ''B'', ''C'']))
          = map (\<lambda>t. \<lparr>Text = t\<rparr>) [''A'', ''A'', ''B'', ''C'']"
    by (rule read_records_valid) simp
  then have 4: "map Text (read_records (line ''A'' @ line ''A'' @ line ''B'' @ line ''C''))
        = [''A'', ''A'', ''B'', ''C'']"
    by simp
  have v: "utf8_ValidString ''C''" by simp
  show ?thesis
    using sn 1 2 3 4 fused_records[OF v, of "''A''" "''B''"] by simp
qed

section \<open>Appends that complete, in both programs\<close>

text \<open>The lines 87 to 103 of \<^verbatim>\<open>src/main.go\<close> do to the file what \<^verbatim>\<open>writePostToFile\<close>
  does, and log an error exactly when \<^verbatim>\<open>writePostToFile\<close> returns one.\<close>

lemma main_go_item_append:
  assumes "\<not> index (postSet s) c"
  shows "outfile (main_go_item M c s) = snd (writePostToFile M \<lparr>Text = c\<rparr> (outfile s))"
    and "logs (main_go_item M c s) = logs s
           \<longleftrightarrow> fst (writePostToFile M \<lparr>Text = c\<rparr> (outfile s)) = None"
  using assms
  by (auto simp: main_go_item_def writePostToFile_def log_add_def Let_def
        split: sum.splits prod.splits option.splits)

lemma processPost_append:
  assumes "\<not> index (postSet s) c" and "processPost M c s = (r, s1)"
  shows "r = fst (writePostToFile M \<lparr>Text = c\<rparr> (outfile s))"
    and "outfile s1 = snd (writePostToFile M \<lparr>Text = c\<rparr> (outfile s))"
  using assms
  by (auto simp: processPost_def log_add_def Let_def split: prod.splits option.splits)

text \<open>When the appends of a list of new, different items all complete, the store and the file
  after the list are the ones after that sequence of appends.\<close>

lemma absorb_appends:
  assumes "distinct l" and "\<forall>c \<in> set l. \<not> index m c"
    and "appends M (map (\<lambda>t. \<lparr>Text = t\<rparr>) l) f = Some f'"
  shows "snd (absorb M l (m, f)) = f'"
  using assms
proof (induction l arbitrary: m f)
  case Nil
  then show ?case by simp
next
  case (Cons c l)
  obtain r f1 where w: "writePostToFile M \<lparr>Text = c\<rparr> f = (r, f1)"
    by (cases "writePostToFile M \<lparr>Text = c\<rparr> f")
  then have r: "r = None" and run: "appends M (map (\<lambda>t. \<lparr>Text = t\<rparr>) l) f1 = Some f'"
    using Cons.prems(3) by (auto split: option.splits)
  have step: "item_data M c (m, f) = (fmupd c True m, f1)"
    using Cons.prems(2) w by (simp add: item_data_def)
  have "\<forall>x \<in> set l. \<not> index (fmupd c True m) x"
    using Cons.prems(1,2) by (auto simp: index_fmupd)
  then have "snd (absorb M l (fmupd c True m, f1)) = f'"
    using Cons.IH[OF _ _ run] Cons.prems(1) by simp
  then show ?case using step by simp
qed

lemma range_appends:
  assumes "distinct l" and "appends M (map (\<lambda>t. \<lparr>Text = t\<rparr>) l) f = Some f'"
  shows "outfile (range_processPost M l (entry t f)) = f'"
    and "outfile (main_go_range M l (entry t f)) = f'"
proof -
  have n: "\<forall>c \<in> set l. \<not> index fmempty c" by (simp add: index_def)
  have "snd (data (range_processPost M l (entry t f))) = f'"
    unfolding range_processPost_data using absorb_appends[OF assms(1) n assms(2)]
    by (simp add: data_def entry_def)
  then show "outfile (range_processPost M l (entry t f)) = f'" by (simp add: data_def)
  have "snd (data (main_go_range M l (entry t f))) = f'"
    unfolding main_go_range_data using absorb_appends[OF assms(1) n assms(2)]
    by (simp add: data_def entry_def)
  then show "outfile (main_go_range M l (entry t f)) = f'" by (simp add: data_def)
qed

lemma writePostToFile_grows:
  "prefix (contents f) (contents (snd (writePostToFile M p f)))"
  using writePostToFile_extends[of M p f] by (auto simp: prefix_def)

text \<open>
  Claim C5, as amended. A file just created is a file of records. When every append of a
  sequence has completed, on a file of records, the file holds what it held before followed by
  one line per item, in order: the JSON object of the item and a newline. Every line parses on
  its own as an object with the one key \<^verbatim>\<open>text\<close>, and for valid UTF-8 it reads back as the
  item appended. The same holds after each single append of the sequence: cut after the first
  \<open>k\<close> appends, the file is a file of records with the lines before and the first \<open>k\<close>
  items. Whatever an append does, complete or not, it only adds to the end of the file, and the
  complete lines that were there stay as they were. The sequence of appends is the one of
  \<^verbatim>\<open>writePostToFile\<close>; the lines 87 to 103 of \<^verbatim>\<open>src/main.go\<close> leave the same file and log
  an error exactly when \<^verbatim>\<open>writePostToFile\<close> returns one, and when the appends of a list of
  different items all complete, the item loops of both programs leave the file of that
  sequence.
\<close>

theorem appends_well_formed:
  "well_formed []
   \<and> (serializer M \<and> well_formed (contents f) \<and> appends M ps f = Some f' \<longrightarrow>
        contents f' = contents f @ concat (map (\<lambda>p. json_bytes p @ [newline]) ps)
      \<and> file_lines (contents f') = file_lines (contents f) @ map json_bytes ps
      \<and> well_formed (contents f')
      \<and> (list_all (\<lambda>p. utf8_ValidString (Text p)) ps \<longrightarrow>
            read_records (contents f') = read_records (contents f) @ ps)
      \<and> (\<forall>k \<le> length ps. \<exists>fk. appends M (take k ps) f = Some fk
            \<and> well_formed (contents fk)
            \<and> file_lines (contents fk) = file_lines (contents f) @ map json_bytes (take k ps)))
   \<and> prefix (contents f) (contents (snd (writePostToFile M p f)))
   \<and> prefix (file_lines (contents f)) (file_lines (contents (snd (writePostToFile M p f))))
   \<and> (\<not> index (postSet s) c \<longrightarrow>
        outfile (main_go_item M c s) = snd (writePostToFile M \<lparr>Text = c\<rparr> (outfile s))
      \<and> (logs (main_go_item M c s) = logs s
            \<longleftrightarrow> fst (writePostToFile M \<lparr>Text = c\<rparr> (outfile s)) = None)
      \<and> (\<forall>r s1. processPost M c s = (r, s1) \<longrightarrow>
            r = fst (writePostToFile M \<lparr>Text = c\<rparr> (outfile s))
          \<and> outfile s1 = snd (writePostToFile M \<lparr>Text = c\<rparr> (outfile s))))
   \<and> (distinct l \<and> appends M (map (\<lambda>t. \<lparr>Text = t\<rparr>) l) f = Some f' \<longrightarrow>
        outfile (range_processPost M l (entry t f)) = f'
      \<and> outfile (main_go_range M l (entry t f)) = f')"
proof -
  have base: "well_formed []"
    by (simp add: well_formed_def pending_def file_lines_def)
  have cut: "\<exists>fk. appends M (take k ps) f = Some fk \<and> well_formed (contents fk)
            \<and> file_lines (contents fk) = file_lines (contents f) @ map json_bytes (take k ps)"
    if ser: "serializer M" and wf: "well_formed (contents f)" and run: "appends M ps f = Some f'"
    for k
  proof -
    obtain fk where fk: "appends M (take k ps) f = Some fk" using appends_take[OF run] by blast
    show ?thesis using fk appends_facts(2,3)[OF ser wf fk] by blast
  qed
  have B: "serializer M \<and> well_formed (contents f) \<and> appends M ps f = Some f' \<longrightarrow>
        contents f' = contents f @ concat (map (\<lambda>p. json_bytes p @ [newline]) ps)
      \<and> file_lines (contents f') = file_lines (contents f) @ map json_bytes ps
      \<and> well_formed (contents f')
      \<and> (list_all (\<lambda>p. utf8_ValidString (Text p)) ps \<longrightarrow>
            read_records (contents f') = read_records (contents f) @ ps)
      \<and> (\<forall>k \<le> length ps. \<exists>fk. appends M (take k ps) f = Some fk
            \<and> well_formed (contents fk)
            \<and> file_lines (contents fk) = file_lines (contents f) @ map json_bytes (take k ps))"
    using appends_facts cut by blast
  have D: "\<not> index (postSet s) c \<longrightarrow>
        outfile (main_go_item M c s) = snd (writePostToFile M \<lparr>Text = c\<rparr> (outfile s))
      \<and> (logs (main_go_item M c s) = logs s
            \<longleftrightarrow> fst (writePostToFile M \<lparr>Text = c\<rparr> (outfile s)) = None)
      \<and> (\<forall>r s1. processPost M c s = (r, s1) \<longrightarrow>
            r = fst (writePostToFile M \<lparr>Text = c\<rparr> (outfile s))
          \<and> outfile s1 = snd (writePostToFile M \<lparr>Text = c\<rparr> (outfile s)))"
    using main_go_item_append[of s c M] processPost_append[of s c M] by blast
  have E: "distinct l \<and> appends M (map (\<lambda>t. \<lparr>Text = t\<rparr>) l) f = Some f' \<longrightarrow>
        outfile (range_processPost M l (entry t f)) = f'
      \<and> outfile (main_go_range M l (entry t f)) = f'"
    using range_appends[of l M f f' t] by blast
  show ?thesis
    using base B writePostToFile_grows[of f M p] writePostToFile_keeps_lines[of f M p] D E
    by (intro conjI)
qed

theorem appends_well_formed_witness:
  "serializer json_Marshal \<and> well_formed (contents \<lparr>contents = [], faults = []\<rparr>)
   \<and> distinct [''A'', ''B'']
   \<and> (case appends json_Marshal [\<lparr>Text = ''A''\<rparr>, \<lparr>Text = ''B''\<rparr>] \<lparr>contents = [], faults = []\<rparr> of
        Some f' \<Rightarrow> contents f' = line ''A'' @ line ''B''
          \<and> file_lines (contents f') = [json_bytes \<lparr>Text = ''A''\<rparr>, json_bytes \<lparr>Text = ''B''\<rparr>]
          \<and> well_formed (contents f')
          \<and> read_records (contents f') = [\<lparr>Text = ''A''\<rparr>, \<lparr>Text = ''B''\<rparr>]
          \<and> outfile (range_processPost json_Marshal [''A'', ''B'']
                (entry 0 \<lparr>contents = [], faults = []\<rparr>)) = f'
          \<and> outfile (main_go_range json_Marshal [''A'', ''B'']
                (entry 0 \<lparr>contents = [], faults = []\<rparr>)) = f'
      | None \<Rightarrow> False)
   \<and> \<not> index (postSet (entry 0 torn)) ''A''
   \<and> outfile (main_go_item json_Marshal ''A'' (entry 0 torn))
        = snd (writePostToFile json_Marshal \<lparr>Text = ''A''\<rparr> torn)
   \<and> logs (main_go_item json_Marshal ''A'' (entry 0 torn)) \<noteq> logs (entry 0 torn)
   \<and> fst (writePostToFile json_Marshal \<lparr>Text = ''A''\<rparr> torn) \<noteq> None"
proof -
  let ?f = "\<lparr>contents = [], faults = []\<rparr>"
  let ?ps = "[\<lparr>Text = ''A''\<rparr>, \<lparr>Text = ''B''\<rparr>]"
  note T = appends_well_formed[where M = json_Marshal and f = ?f and ps = ?ps
      and l = "[''A'', ''B'']" and t = 0 and s = "entry 0 torn" and c = "''A''"]
  have "well_formed []" using T by blast
  then have wf: "well_formed (contents ?f)" by simp
  have "\<exists>f'. appends json_Marshal ?ps ?f = Some f'"
    by (simp add: writePostToFile_def file_Write_def file_WriteString_def json_Marshal_def)
  then obtain f' where r: "appends json_Marshal ?ps ?f = Some f'" ..
  have v: "list_all (\<lambda>p. utf8_ValidString (Text p)) ?ps" by simp
  have dl: "distinct [''A'', ''B'']" by simp
  have rl: "appends json_Marshal (map (\<lambda>t. \<lparr>Text = t\<rparr>) [''A'', ''B'']) ?f = Some f'"
    using r by simp
  have e: "file_lines (contents ?f) = []" "read_records (contents ?f) = []"
    by (simp_all add: file_lines_def read_records_def List.map_filter_simps)
  have 1: "contents f' = contents ?f @ concat (map (\<lambda>p. json_bytes p @ [newline]) ?ps)"
    and 2: "file_lines (contents f') = file_lines (contents ?f) @ map json_bytes ?ps"
    and 3: "well_formed (contents f')"
    and 4: "read_records (contents f') = read_records (contents ?f) @ ?ps"
    using T[of f'] serializer_json wf r v by blast+
  have 5: "outfile (range_processPost json_Marshal [''A'', ''B''] (entry 0 ?f)) = f'"
    and 6: "outfile (main_go_range json_Marshal [''A'', ''B''] (entry 0 ?f)) = f'"
    using T[of f'] dl rl by blast+
  have ni: "\<not> index (postSet (entry 0 torn)) ''A''" by (simp add: entry_def index_def)
  have 7: "outfile (main_go_item json_Marshal ''A'' (entry 0 torn))
        = snd (writePostToFile json_Marshal \<lparr>Text = ''A''\<rparr> (outfile (entry 0 torn)))"
    and 8: "logs (main_go_item json_Marshal ''A'' (entry 0 torn)) = logs (entry 0 torn)
        \<longleftrightarrow> fst (writePostToFile json_Marshal \<lparr>Text = ''A''\<rparr> (outfile (entry 0 torn))) = None"
    using T[of f'] ni by blast+
  have 9: "fst (writePostToFile json_Marshal \<lparr>Text = ''A''\<rparr> torn) \<noteq> None"
    by (simp add: writePostToFile_def file_Write_def file_WriteString_def json_Marshal_def
          torn_def)
  have o: "outfile (entry 0 torn) = torn" by (simp add: entry_def)
  have c: "contents f' = line ''A'' @ line ''B''" using 1 by (simp add: line_def)
  have l: "file_lines (contents f') = [json_bytes \<lparr>Text = ''A''\<rparr>, json_bytes \<lparr>Text = ''B''\<rparr>]"
    using 2 unfolding e by simp
  have rr: "read_records (contents f') = [\<lparr>Text = ''A''\<rparr>, \<lparr>Text = ''B''\<rparr>]"
    using 4 unfolding e by simp
  show ?thesis using serializer_json wf dl r c l 3 rr 5 6 ni 7 8 9 unfolding o by simp
qed

text \<open>Claim C5 as stated fails after an append that did not complete. The newline of A is not
  written; the append of B completes, in \<^verbatim>\<open>writePostToFile\<close> and in the lines of
  \<^verbatim>\<open>src/main.go\<close> alike, and the file is one line with the two objects, which does not
  parse: B was appended and has no record.\<close>

theorem append_after_failure:
  "writePostToFile json_Marshal \<lparr>Text = ''A''\<rparr> torn
     = (Some (Errorf ''error writing newline to file'' (ExtError ''no space left on device'')),
        \<lparr>contents = json_bytes \<lparr>Text = ''A''\<rparr>, faults = []\<rparr>)
   \<and> writePostToFile json_Marshal \<lparr>Text = ''B''\<rparr>
         \<lparr>contents = json_bytes \<lparr>Text = ''A''\<rparr>, faults = []\<rparr>
     = (None, \<lparr>contents = json_bytes \<lparr>Text = ''A''\<rparr> @ line ''B'', faults = []\<rparr>)
   \<and> outfile (main_go_range json_Marshal [''A'', ''B''] (entry 0 torn))
     = \<lparr>contents = json_bytes \<lparr>Text = ''A''\<rparr> @ line ''B'', faults = []\<rparr>
   \<and> outfile (range_processPost json_Marshal [''A'', ''B''] (entry 0 torn))
     = \<lparr>contents = json_bytes \<lparr>Text = ''A''\<rparr> @ line ''B'', faults = []\<rparr>
   \<and> file_lines (json_bytes \<lparr>Text = ''A''\<rparr> @ line ''B'')
     = [json_bytes \<lparr>Text = ''A''\<rparr> @ json_bytes \<lparr>Text = ''B''\<rparr>]
   \<and> parse_record (json_bytes \<lparr>Text = ''A''\<rparr> @ json_bytes \<lparr>Text = ''B''\<rparr>) = None
   \<and> read_records (json_bytes \<lparr>Text = ''A''\<rparr> @ line ''B'') = []
   \<and> \<not> well_formed (json_bytes \<lparr>Text = ''A''\<rparr> @ line ''B'')"
proof -
  let ?a = "json_bytes \<lparr>Text = ''A''\<rparr>"
  let ?b = "json_bytes \<lparr>Text = ''B''\<rparr>"
  have 1: "writePostToFile json_Marshal \<lparr>Text = ''A''\<rparr> torn
     = (Some (Errorf ''error writing newline to file'' (ExtError ''no space left on device'')),
        \<lparr>contents = ?a, faults = []\<rparr>)"
    by (simp add: writePostToFile_def file_Write_def file_WriteString_def json_Marshal_def
          torn_def)
  have 2: "writePostToFile json_Marshal \<lparr>Text = ''B''\<rparr> \<lparr>contents = ?a, faults = []\<rparr>
     = (None, \<lparr>contents = ?a @ line ''B'', faults = []\<rparr>)"
    by (simp add: writePostToFile_def file_Write_def file_WriteString_def json_Marshal_def
          line_def)
  have 3: "outfile (main_go_range json_Marshal [''A'', ''B''] (entry 0 torn))
     = \<lparr>contents = ?a @ line ''B'', faults = []\<rparr>"
    by (simp add: main_go_item_def file_Write_def file_WriteString_def json_Marshal_def
          torn_def entry_def index_def log_add_def line_def Let_def)
  have 4: "outfile (range_processPost json_Marshal [''A'', ''B''] (entry 0 torn))
     = \<lparr>contents = ?a @ line ''B'', faults = []\<rparr>"
    by (simp add: processPost_def writePostToFile_def file_Write_def file_WriteString_def
          json_Marshal_def torn_def entry_def index_def log_add_def line_def Let_def)
  have nn: "newline \<notin> set (?a @ ?b)" using json_bytes_no_newline by simp
  have 5: "file_lines (?a @ line ''B'') = [?a @ ?b]"
    using file_lines_line[OF nn, of "[]"] by (simp add: line_def file_lines_def pending_def)
  have 6: "parse_record (?a @ ?b) = None"
    by (rule parse_record_garbage) (rule json_bytes_nonempty)
  have 7: "read_records (?a @ line ''B'') = []"
    using 5 6 by (simp add: read_records_def List.map_filter_simps)
  have 8: "\<not> well_formed (?a @ line ''B'')"
    using 5 6 by (simp add: well_formed_def)
  show ?thesis using 1 2 3 4 5 6 7 8 by simp
qed

section \<open>An append that fails\<close>

text \<open>What a failed append leaves in the file: a part of the line, never all of it.\<close>

lemma writePostToFile_fails:
  assumes ser: "serializer M" and w: "writePostToFile M p f = (Some err, f')"
  shows "\<exists>x. contents f' = contents f @ x \<and> strict_prefix x (json_bytes p @ [newline])"
proof (cases "M p")
  case (Inl e)
  then have "contents f' = contents f @ []" using w by (simp add: writePostToFile_def)
  moreover have "strict_prefix [] (json_bytes p @ [newline])" by (simp add: strict_prefix_def)
  ultimately show ?thesis by blast
next
  case (Inr d)
  then have d: "d = json_bytes p" using ser by (simp add: serializer_def)
  have ne: "d \<noteq> []" using d json_bytes_nonempty by simp
  have part: "strict_prefix (take (min n (length d - 1)) d) (d @ [newline])" for n
  proof -
    have "prefix (take (min n (length d - 1)) d) (d @ [newline])"
      by (simp add: take_is_prefix prefix_prefix)
    moreover have "length (take (min n (length d - 1)) d) < length (d @ [newline])" by simp
    ultimately show ?thesis unfolding strict_prefix_def by (metis less_irrefl)
  qed
  have whole: "strict_prefix d (d @ [newline])" by (simp add: strict_prefix_def)
  show ?thesis
  proof (cases "fst (file_Write d f)")
    case (Some e1)
    then obtain n where "contents f' = contents f @ take (min n (length d - 1)) d"
      using w Inr
      by (auto simp: writePostToFile_def file_Write_def split: list.splits write_result.splits)
    then show ?thesis using part d by blast
  next
    case None
    then have "contents f' = contents f @ d"
      using w Inr
      by (auto simp: writePostToFile_def file_Write_def file_WriteString_def
            split: list.splits write_result.splits)
    then show ?thesis using whole d by blast
  qed
qed

section \<open>An append that fails, and the rest of the run\<close>

lemma item_step_grows:
  "item_step M c s s' \<Longrightarrow> prefix (contents (outfile s)) (contents (outfile s'))"
  using writePostToFile_grows[of "outfile s" M "\<lparr>Text = c\<rparr>"]
  by (auto simp: item_step_def split: if_splits)

lemma kept_refl: "index (postSet s) c \<Longrightarrow> kept c s s"
  by (simp add: kept_def)

lemma kept_frame:
  "kept c s0 s \<Longrightarrow> postSet s' = postSet s \<Longrightarrow> outfile s' = outfile s \<Longrightarrow> kept c s0 s'"
  by (simp add: kept_def texts_def)

lemma item_step_kept:
  assumes ser: "serializer M" and v: "utf8_ValidString c'" and st: "item_step M c' s s'"
    and k: "kept c s0 s"
  shows "kept c s0 s'"
proof -
  from item_step_texts[OF ser v st]
  have idx: "index (postSet s') c" and
    t: "texts s' = texts s \<or> (texts s' = texts s @ [c'] \<and> \<not> index (postSet s) c')"
    using k by (auto simp: kept_def)
  have "c' \<noteq> c" if "\<not> index (postSet s) c'" using that k by (auto simp: kept_def)
  then have "filter (\<lambda>t. t = c) (texts s') = filter (\<lambda>t. t = c) (texts s)" using t by auto
  moreover have "prefix (contents (outfile s0)) (contents (outfile s'))"
    using item_step_grows[OF st] k by (auto simp: kept_def)
  ultimately show ?thesis using idx k by (simp add: kept_def)
qed

lemma range_processPost_kept:
  assumes "serializer M" "list_all utf8_ValidString l" "index (postSet s) c"
  shows "kept c s (range_processPost M l s)"
proof (rule range_processPost_inv[where P = "kept c s"])
  fix c' and x x' :: state
  assume "c' \<in> set l" "kept c s x" "item_step M c' x x'"
  then show "kept c s x'"
    using item_step_kept[OF assms(1) valid_item[OF assms(2)]] by blast
next
  show "kept c s s" using assms(3) by (rule kept_refl)
qed

lemma main_go_range_kept:
  assumes "serializer M" "list_all utf8_ValidString l" "index (postSet s) c"
  shows "kept c s (main_go_range M l s)"
proof (rule main_go_range_inv[where P = "kept c s"])
  fix c' and x x' :: state
  assume "c' \<in> set l" "kept c s x" "item_step M c' x x'"
  then show "kept c s x'"
    using item_step_kept[OF assms(1) valid_item[OF assms(2)]] by blast
next
  show "kept c s s" using assms(3) by (rule kept_refl)
qed

lemma scrape_loop_kept:
  assumes "serializer M" "list_all utf8_ValidString (snapshots cs)" "index (postSet s) c"
    "scrape_loop M endTime cs s = Some s'"
  shows "kept c s s'"
proof (rule scrape_loop_inv[where P = "kept c s" and M = M and cs = cs and s = s])
  fix c' and x x' :: state
  assume "c' \<in> set (snapshots cs)" "kept c s x" "item_step M c' x x'"
  then show "kept c s x'"
    using item_step_kept[OF assms(1) valid_item[OF assms(2)]] by blast
next
  fix x x' :: state
  assume "kept c s x" "postSet x' = postSet x" "outfile x' = outfile x"
  then show "kept c s x'" by (rule kept_frame)
next
  show "kept c s s" using assms(3) by (rule kept_refl)
next
  show "scrape_loop M endTime cs s = Some s'" by (rule assms(4))
qed

lemma main_go_loop_kept:
  assumes "serializer M" "list_all utf8_ValidString (snapshots cs)" "index (postSet s) c"
    "main_go_loop M endTime cs s = Some r"
  shows "kept c s (final r)"
proof (rule main_go_loop_inv[where P = "kept c s" and M = M and cs = cs and s = s])
  fix c' and x x' :: state
  assume "c' \<in> set (snapshots cs)" "kept c s x" "item_step M c' x x'"
  then show "kept c s x'"
    using item_step_kept[OF assms(1) valid_item[OF assms(2)]] by blast
next
  fix x x' :: state
  assume "kept c s x" "postSet x' = postSet x" "outfile x' = outfile x"
  then show "kept c s x'" by (rule kept_frame)
next
  show "kept c s s" using assms(3) by (rule kept_refl)
next
  show "main_go_loop M endTime cs s = Some r" by (rule assms(4))
qed

text \<open>Whatever fails, a loop that returns has handled every item of every cycle that the
  clock let it run.\<close>

lemma scrape_loop_handles:
  assumes "scrape_loop M endTime cs s = Some s'"
  shows "postSet s' = postSet (range_processPost M (snapshots (executed endTime (now s) cs)) s)"
    and "outfile s' = outfile (range_processPost M (snapshots (executed endTime (now s) cs)) s)"
proof -
  have "data s' = data (range_processPost M (snapshots (executed endTime (now s) cs)) s)"
    using scrape_loop_data[OF assms]
      range_processPost_data[of M "snapshots (executed endTime (now s) cs)" s]
    by simp
  then show
    "postSet s' = postSet (range_processPost M (snapshots (executed endTime (now s) cs)) s)"
    "outfile s' = outfile (range_processPost M (snapshots (executed endTime (now s) cs)) s)"
    by (simp_all add: data_def)
qed

lemma main_go_loop_handles:
  assumes "main_go_loop M endTime cs s = Some (Returned s')"
  shows "postSet s' = postSet (main_go_range M (snapshots (executed endTime (now s) cs)) s)"
    and "outfile s' = outfile (main_go_range M (snapshots (executed endTime (now s) cs)) s)"
proof -
  have "data s' = data (main_go_range M (snapshots (executed endTime (now s) cs)) s)"
    using main_go_loop_data[OF assms]
      main_go_range_data[of M "snapshots (executed endTime (now s) cs)" s]
    by simp
  then show
    "postSet s' = postSet (main_go_range M (snapshots (executed endTime (now s) cs)) s)"
    "outfile s' = outfile (main_go_range M (snapshots (executed endTime (now s) cs)) s)"
    by (simp_all add: data_def)
qed

lemma processPost_fails:
  assumes ser: "serializer M" and p: "processPost M c s = (Some err, s1)"
  shows "index (postSet s1) c"
    and "\<exists>x. contents (outfile s1) = contents (outfile s) @ x \<and> strict_prefix x (line c)"
    and "read_records (contents (outfile s1)) = read_records (contents (outfile s))"
proof -
  have ni: "\<not> index (postSet s) c"
    and w: "fst (writePostToFile M \<lparr>Text = c\<rparr> (outfile s)) = Some err"
    using processPost_error[OF p] by simp_all
  obtain f' where wf: "writePostToFile M \<lparr>Text = c\<rparr> (outfile s) = (Some err, f')"
    using w by (cases "writePostToFile M \<lparr>Text = c\<rparr> (outfile s)") auto
  have st: "item_step M c s s1" using p by (rule processPost_item_step)
  then have f: "outfile s1 = f'" and m: "postSet s1 = fmupd c True (postSet s)"
    using ni wf by (auto simp: item_step_def)
  show "index (postSet s1) c" using m by (simp add: index_fmupd)
  show "\<exists>x. contents (outfile s1) = contents (outfile s) @ x \<and> strict_prefix x (line c)"
    using writePostToFile_fails[OF ser wf] f by (simp add: line_def)
  show "read_records (contents (outfile s1)) = read_records (contents (outfile s))"
    using write_fail_records[OF ser wf] f by simp
qed

lemma main_go_item_fails:
  assumes ser: "serializer M" and ni: "\<not> index (postSet s) c"
    and w: "fst (writePostToFile M \<lparr>Text = c\<rparr> (outfile s)) = Some err"
  shows "index (postSet (main_go_item M c s)) c"
    and "\<exists>x. contents (outfile (main_go_item M c s)) = contents (outfile s) @ x
           \<and> strict_prefix x (line c)"
    and "read_records (contents (outfile (main_go_item M c s)))
           = read_records (contents (outfile s))"
proof -
  obtain f' where wf: "writePostToFile M \<lparr>Text = c\<rparr> (outfile s) = (Some err, f')"
    using w by (cases "writePostToFile M \<lparr>Text = c\<rparr> (outfile s)") auto
  have st: "item_step M c s (main_go_item M c s)" by (rule main_go_item_step)
  then have f: "outfile (main_go_item M c s) = f'"
    and m: "postSet (main_go_item M c s) = fmupd c True (postSet s)"
    using ni wf by (auto simp: item_step_def)
  show "index (postSet (main_go_item M c s)) c" using m by (simp add: index_fmupd)
  show "\<exists>x. contents (outfile (main_go_item M c s)) = contents (outfile s) @ x
           \<and> strict_prefix x (line c)"
    using writePostToFile_fails[OF ser wf] f by (simp add: line_def)
  show "read_records (contents (outfile (main_go_item M c s)))
           = read_records (contents (outfile s))"
    using write_fail_records[OF ser wf] f by simp
qed

lemma kept_member:
  assumes "kept c s s'"
  shows "c \<in> set (map Text (read_records (contents (outfile s'))))
           \<longleftrightarrow> c \<in> set (map Text (read_records (contents (outfile s))))"
proof -
  have m: "c \<in> set xs \<longleftrightarrow> filter (\<lambda>t. t = c) xs \<noteq> []" for xs :: "string list"
    by (induction xs) auto
  have "filter (\<lambda>t. t = c) (map Text (read_records (contents (outfile s'))))
          = filter (\<lambda>t. t = c) (map Text (read_records (contents (outfile s))))"
    using assms by (simp add: kept_def texts_def)
  then show ?thesis
    unfolding m[of "map Text (read_records (contents (outfile s')))"]
      m[of "map Text (read_records (contents (outfile s)))"]
    by (rule arg_cong)
qed

text \<open>
  Claim C4, as amended. When the append of a new item fails, in the serializer or in a write,
  the error is logged and the handling of the items goes on with the next one:
  \<^verbatim>\<open>collectPosts\<close> logs what \<^verbatim>\<open>processPost\<close> returns, the loop body of
  \<^verbatim>\<open>src/main.go\<close> logs and continues. The item is marked in the store. The file has got
  what the failed write had written, which is less than the line of the item: nothing, a part
  of the object, or the object without its newline; the records of the file are the ones that
  were there. A marked item is never handled again: handling it changes nothing, attempts no
  write and logs nothing. Through every later item and cycle of either program, to the end of
  the run, the item stays marked, the file only grows, and the records with its text are the
  ones that were there when it was marked: none, when the store and the file agreed. A failed
  append does not stop the run: a loop that returns has handled every item of every cycle that
  the clock let it run, the loop of \<^verbatim>\<open>src/main.go\<close> ends fatally only through a snapshot
  call that fails, and both loops return once the cycles reach the deadline.
\<close>

theorem failed_item_is_lost:
  "(serializer M \<and> processPost M c s = (Some err, s1) \<longrightarrow>
      index (postSet s1) c
      \<and> (\<exists>x. contents (outfile s1) = contents (outfile s) @ x \<and> strict_prefix x (line c))
      \<and> read_records (contents (outfile s1)) = read_records (contents (outfile s))
      \<and> range_processPost M (c # rest) s
           = range_processPost M rest (log_add (PrintlnErr [] err) s1))
   \<and> (serializer M \<and> \<not> index (postSet s) c
        \<and> fst (writePostToFile M \<lparr>Text = c\<rparr> (outfile s)) = Some err \<longrightarrow>
      index (postSet (main_go_item M c s)) c
      \<and> (\<exists>msg e. logs (main_go_item M c s) = logs s @ [PrintlnErr msg e])
      \<and> (\<exists>x. contents (outfile (main_go_item M c s)) = contents (outfile s) @ x
             \<and> strict_prefix x (line c))
      \<and> read_records (contents (outfile (main_go_item M c s)))
           = read_records (contents (outfile s))
      \<and> main_go_range M (c # rest) s = main_go_range M rest (main_go_item M c s))
   \<and> (index (postSet s) c \<longrightarrow> processPost M c s = (None, s) \<and> main_go_item M c s = s)
   \<and> (kept c s s2 \<longrightarrow>
      index (postSet s2) c \<and> prefix (contents (outfile s)) (contents (outfile s2))
      \<and> (c \<in> set (map Text (read_records (contents (outfile s2))))
            \<longleftrightarrow> c \<in> set (map Text (read_records (contents (outfile s))))))
   \<and> (serializer M \<and> list_all utf8_ValidString l \<and> index (postSet s) c \<longrightarrow>
      kept c s (range_processPost M l s) \<and> kept c s (main_go_range M l s))
   \<and> (serializer M \<and> list_all utf8_ValidString (snapshots cs) \<and> index (postSet s) c \<longrightarrow>
      (\<forall>s'. scrape_loop M endTime cs s = Some s' \<longrightarrow> kept c s s')
      \<and> (\<forall>r. main_go_loop M endTime cs s = Some r \<longrightarrow> kept c s (final r)))
   \<and> (consistent s \<and> \<not> index (postSet s) c \<longrightarrow>
      c \<notin> set (map Text (read_records (contents (outfile s)))))
   \<and> (\<forall>s'. scrape_loop M endTime cs s = Some s' \<longrightarrow>
        postSet s' = postSet (range_processPost M (snapshots (executed endTime (now s) cs)) s)
      \<and> outfile s' = outfile (range_processPost M (snapshots (executed endTime (now s) cs)) s))
   \<and> (\<forall>s'. main_go_loop M endTime cs s = Some (Returned s') \<longrightarrow>
        postSet s' = postSet (main_go_range M (snapshots (executed endTime (now s) cs)) s)
      \<and> outfile s' = outfile (main_go_range M (snapshots (executed endTime (now s) cs)) s))
   \<and> (list_all (\<lambda>cy. \<exists>l. capture cy = Inr l) cs \<longrightarrow>
      (\<forall>e s'. main_go_loop M endTime cs s \<noteq> Some (Fatal e s')))
   \<and> (endTime \<le> now s + sum_list (map duration cs) \<longrightarrow>
      scrape_loop M endTime cs s \<noteq> None \<and> main_go_loop M endTime cs s \<noteq> None)"
proof -
  have A: "serializer M \<and> processPost M c s = (Some err, s1) \<longrightarrow>
      index (postSet s1) c
      \<and> (\<exists>x. contents (outfile s1) = contents (outfile s) @ x \<and> strict_prefix x (line c))
      \<and> read_records (contents (outfile s1)) = read_records (contents (outfile s))
      \<and> range_processPost M (c # rest) s
           = range_processPost M rest (log_add (PrintlnErr [] err) s1)"
    using processPost_fails[of M c s err s1] by simp
  have B: "serializer M \<and> \<not> index (postSet s) c
        \<and> fst (writePostToFile M \<lparr>Text = c\<rparr> (outfile s)) = Some err \<longrightarrow>
      index (postSet (main_go_item M c s)) c
      \<and> (\<exists>msg e. logs (main_go_item M c s) = logs s @ [PrintlnErr msg e])
      \<and> (\<exists>x. contents (outfile (main_go_item M c s)) = contents (outfile s) @ x
             \<and> strict_prefix x (line c))
      \<and> read_records (contents (outfile (main_go_item M c s)))
           = read_records (contents (outfile s))
      \<and> main_go_range M (c # rest) s = main_go_range M rest (main_go_item M c s)"
    using main_go_item_fails[of M s c err] main_go_item_fail_log[of s c M err] by simp
  have C: "index (postSet s) c \<longrightarrow> processPost M c s = (None, s) \<and> main_go_item M c s = s"
    using processPost_again[of s c M] main_go_item_again[of s c M] by simp
  have D: "kept c s s2 \<longrightarrow>
      index (postSet s2) c \<and> prefix (contents (outfile s)) (contents (outfile s2))
      \<and> (c \<in> set (map Text (read_records (contents (outfile s2))))
            \<longleftrightarrow> c \<in> set (map Text (read_records (contents (outfile s)))))"
    using kept_member[of c s s2] by (simp add: kept_def)
  have E: "serializer M \<and> list_all utf8_ValidString l \<and> index (postSet s) c \<longrightarrow>
      kept c s (range_processPost M l s) \<and> kept c s (main_go_range M l s)"
    using range_processPost_kept[of M l s c] main_go_range_kept[of M l s c] by simp
  have F: "serializer M \<and> list_all utf8_ValidString (snapshots cs) \<and> index (postSet s) c \<longrightarrow>
      (\<forall>s'. scrape_loop M endTime cs s = Some s' \<longrightarrow> kept c s s')
      \<and> (\<forall>r. main_go_loop M endTime cs s = Some r \<longrightarrow> kept c s (final r))"
    using scrape_loop_kept[of M cs s c endTime] main_go_loop_kept[of M cs s c endTime] by blast
  have G: "consistent s \<and> \<not> index (postSet s) c \<longrightarrow>
      c \<notin> set (map Text (read_records (contents (outfile s))))"
    by (auto simp: consistent_def texts_def list_all_iff)
  have H: "\<forall>s'. scrape_loop M endTime cs s = Some s' \<longrightarrow>
        postSet s' = postSet (range_processPost M (snapshots (executed endTime (now s) cs)) s)
      \<and> outfile s' = outfile (range_processPost M (snapshots (executed endTime (now s) cs)) s)"
    using scrape_loop_handles[of M endTime cs s] by blast
  have I: "\<forall>s'. main_go_loop M endTime cs s = Some (Returned s') \<longrightarrow>
        postSet s' = postSet (main_go_range M (snapshots (executed endTime (now s) cs)) s)
      \<and> outfile s' = outfile (main_go_range M (snapshots (executed endTime (now s) cs)) s)"
    using main_go_loop_handles[of M endTime cs s] by blast
  have J: "list_all (\<lambda>cy. \<exists>l. capture cy = Inr l) cs \<longrightarrow>
      (\<forall>e s'. main_go_loop M endTime cs s \<noteq> Some (Fatal e s'))"
    using main_go_loop_no_fatal[of cs M endTime s] by blast
  have K: "endTime \<le> now s + sum_list (map duration cs) \<longrightarrow>
      scrape_loop M endTime cs s \<noteq> None \<and> main_go_loop M endTime cs s \<noteq> None"
    using scrape_loop_returns[of endTime s cs M] main_go_loop_returns[of endTime s cs M] by blast
  show ?thesis using A B C D E F G H I J K by (intro conjI)
qed

theorem failed_item_is_lost_witness:
  "serializer json_Marshal
   \<and> processPost json_Marshal ''X''
         (entry 0 \<lparr>contents = [], faults = [WriteErr 0 ''input/output error'']\<rparr>)
       = (Some (Errorf ''error writing post to file'' (ExtError ''input/output error'')),
          \<lparr>now = 0, postSet = fmupd ''X'' True fmempty,
           outfile = \<lparr>contents = [], faults = []\<rparr>, logs = []\<rparr>)
   \<and> index (postSet \<lparr>now = 0, postSet = fmupd ''X'' True fmempty,
           outfile = \<lparr>contents = [], faults = []\<rparr>, logs = []\<rparr>) ''X''
   \<and> list_all utf8_ValidString (snapshots again)
   \<and> (case scrape_loop json_Marshal minute again
              \<lparr>now = 0, postSet = fmupd ''X'' True fmempty,
               outfile = \<lparr>contents = [], faults = []\<rparr>, logs = []\<rparr> of
        Some s' \<Rightarrow> index (postSet s') ''X'' \<and> contents (outfile s') = line ''Y''
          \<and> ''X'' \<notin> set (map Text (read_records (contents (outfile s'))))
      | None \<Rightarrow> False)
   \<and> (case main json_Marshal transient blank of
        Some (Returned (d, l)) \<Rightarrow>
          stored d ''posts/durov_posts_20240101120000.json'' = line ''Y''
          \<and> counts l = [2, 2]
          \<and> PrintlnErr [] (Errorf ''error writing post to file'' (ExtError ''input/output error''))
                \<in> set l
      | _ \<Rightarrow> False)
   \<and> (case main_go json_Marshal transient blank of
        Some (Returned (d, l)) \<Rightarrow>
          stored d ''posts/durov_posts_20240101120000.json'' = line ''Y''
          \<and> counts l = [2, 2]
          \<and> PrintlnErr ''Error writing post to file:'' (ExtError ''input/output error'') \<in> set l
      | _ \<Rightarrow> False)"
proof -
  let ?err = "Errorf ''error writing post to file'' (ExtError ''input/output error'')"
  let ?s0 = "entry 0 \<lparr>contents = [], faults = [WriteErr 0 ''input/output error'']\<rparr>"
  let ?s1 = "\<lparr>now = 0, postSet = fmupd ''X'' True fmempty,
           outfile = \<lparr>contents = [], faults = []\<rparr>, logs = []\<rparr>"
  have p: "processPost json_Marshal ''X'' ?s0 = (Some ?err, ?s1)"
    by (simp add: processPost_def writePostToFile_def file_Write_def file_WriteString_def
          json_Marshal_def entry_def index_def Let_def)
  have i: "index (postSet ?s1) ''X''"
    and rr: "read_records (contents (outfile ?s1)) = read_records (contents (outfile ?s0))"
    using failed_item_is_lost[where M = json_Marshal and c = "''X''" and s = ?s0
        and err = ?err and ?s1.0 = ?s1] serializer_json p by blast+
  have n0: "''X'' \<notin> set (map Text (read_records (contents (outfile ?s1))))"
    unfolding rr by (simp add: entry_def read_records_def file_lines_def List.map_filter_simps)
  have v: "list_all utf8_ValidString (snapshots again)"
    by (simp add: again_def snapshots_def items_def)
  have "\<exists>s'. scrape_loop json_Marshal minute again ?s1 = Some s'
          \<and> contents (outfile s') = line ''Y''"
    by (simp add: run_defs again_def)
  then obtain s' where r: "scrape_loop json_Marshal minute again ?s1 = Some s'"
    and c: "contents (outfile s') = line ''Y''"
    by blast
  note T = failed_item_is_lost[where M = json_Marshal and c = "''X''" and s = ?s1
      and cs = again and endTime = minute and ?s2.0 = s']
  have k: "kept ''X'' ?s1 s'" using T serializer_json v i r by blast
  have i': "index (postSet s') ''X''"
    and m: "''X'' \<in> set (map Text (read_records (contents (outfile s'))))
        \<longleftrightarrow> ''X'' \<in> set (map Text (read_records (contents (outfile ?s1))))"
    using T k by blast+
  have n: "''X'' \<notin> set (map Text (read_records (contents (outfile s'))))"
    using m n0 by blast
  have 1: "(case main json_Marshal transient blank of
        Some (Returned (d, l)) \<Rightarrow>
          stored d ''posts/durov_posts_20240101120000.json'' = line ''Y''
          \<and> counts l = [2, 2]
          \<and> PrintlnErr [] ?err \<in> set l
      | _ \<Rightarrow> False)"
    by (simp add: run_defs transient_def again_def stored_def fcard_finsert_if)
  have 2: "(case main_go json_Marshal transient blank of
        Some (Returned (d, l)) \<Rightarrow>
          stored d ''posts/durov_posts_20240101120000.json'' = line ''Y''
          \<and> counts l = [2, 2]
          \<and> PrintlnErr ''Error writing post to file:'' (ExtError ''input/output error'') \<in> set l
      | _ \<Rightarrow> False)"
    by (simp add: run_defs transient_def again_def stored_def fcard_finsert_if)
  have "case scrape_loop json_Marshal minute again ?s1 of
        Some s' \<Rightarrow> index (postSet s') ''X'' \<and> contents (outfile s') = line ''Y''
          \<and> ''X'' \<notin> set (map Text (read_records (contents (outfile s'))))
      | None \<Rightarrow> False"
    using r i' c n by simp
  then show ?thesis using serializer_json p i v 1 2 by blast
qed

text \<open>Claim C4 as stated fails when the write that fails is the one of the newline: the
  object of the item is in the file. Both programs log the error and go on to the end of the
  run, and the output file holds exactly the object of A, which reads as the item.\<close>

theorem failed_append_leaves_object:
  "(case main json_Marshal (failing\<lparr>cycles := single\<rparr>) blank of
      Some (Returned (d, l)) \<Rightarrow>
        stored d ''posts/durov_posts_20240101120000.json'' = json_bytes \<lparr>Text = ''A''\<rparr>
        \<and> PrintlnErr [] (Errorf ''error writing newline to file''
               (ExtError ''no space left on device'')) \<in> set l
    | _ \<Rightarrow> False)
   \<and> (case main_go json_Marshal (failing\<lparr>cycles := single\<rparr>) blank of
      Some (Returned (d, l)) \<Rightarrow>
        stored d ''posts/durov_posts_20240101120000.json'' = json_bytes \<lparr>Text = ''A''\<rparr>
        \<and> PrintlnErr ''Error writing newline to file:'' (ExtError ''no space left on device'')
              \<in> set l
    | _ \<Rightarrow> False)
   \<and> json_bytes \<lparr>Text = ''A''\<rparr>
        = CHR ''{'' # CHR 0x22 # ''text'' @ CHR 0x22 # '':'' @ CHR 0x22 # ''A'' @ CHR 0x22 # ''}''
   \<and> parse_record (json_bytes \<lparr>Text = ''A''\<rparr>) = Some \<lparr>Text = ''A''\<rparr>"
proof -
  have 1: "(case main json_Marshal (failing\<lparr>cycles := single\<rparr>) blank of
      Some (Returned (d, l)) \<Rightarrow>
        stored d ''posts/durov_posts_20240101120000.json'' = json_bytes \<lparr>Text = ''A''\<rparr>
        \<and> PrintlnErr [] (Errorf ''error writing newline to file''
               (ExtError ''no space left on device'')) \<in> set l
    | _ \<Rightarrow> False)"
    by (simp add: run_defs failing_def single_def stored_def)
  have 2: "(case main_go json_Marshal (failing\<lparr>cycles := single\<rparr>) blank of
      Some (Returned (d, l)) \<Rightarrow>
        stored d ''posts/durov_posts_20240101120000.json'' = json_bytes \<lparr>Text = ''A''\<rparr>
        \<and> PrintlnErr ''Error writing newline to file:'' (ExtError ''no space left on device'')
              \<in> set l
    | _ \<Rightarrow> False)"
    by (simp add: run_defs failing_def single_def stored_def)
  have 3: "json_bytes \<lparr>Text = ''A''\<rparr>
        = CHR ''{'' # CHR 0x22 # ''text'' @ CHR 0x22 # '':'' @ CHR 0x22 # ''A'' @ CHR 0x22 # ''}''"
    by (simp add: json_bytes_def header_def appendString_def htmlSafe_def dquote_def bslash_def)
  have 4: "parse_record (json_bytes \<lparr>Text = ''A''\<rparr>) = Some \<lparr>Text = ''A''\<rparr>"
    by (rule parse_record_json) simp
  show ?thesis using 1 2 3 4 by blast
qed

end
